theory Spec2Isabelle
  imports Main "HOL-Library.AList" "HOL-Library.Sublist"
begin

section \<open>The primary columns list panel (primaryColsListPanel.ts)\<close>

text \<open>
  A shallow embedding of the class \<open>PrimaryColsListPanel\<close>: the panel that keeps one
  tool panel item per column and column group of the grid's primary column tree, filters
  the items by name, hides the items below collapsed groups and reports the aggregate
  expansion state of the groups.

  The panel's fields are a record that every method takes and returns. What the panel does
  to its collaborators (the column api, the console, its own event listeners, the items it
  destroys) is appended to a trace kept in the record. The column controller and the column
  api are read through a record of the values they answer with. The methods
  \<open>setColumnLayout\<close>, \<open>syncColumnLayout\<close> and \<open>destroy\<close>, of which no property below
  speaks, are not embedded.
\<close>

subsection \<open>The column tree\<close>

text \<open>
  \<open>AbstractColDef\<close>: of a column or column group definition the panel reads one property,
  \<open>suppressToolPanel\<close>. The property is optional in the source; an absent one is falsy
  and is \<open>False\<close> here.
\<close>

record abstractColDef =
  suppressToolPanel :: bool

text \<open>
  \<open>Column\<close> and \<open>OriginalColumnGroup\<close> are classes of the grid's core. The panel calls
  \<open>getId\<close>, \<open>getColDef\<close> / \<open>getColGroupDef\<close> (which may answer null), \<open>isPadding\<close>,
  \<open>getOriginalParent\<close> (null for a group without a parent, here the parent's id) and
  \<open>getChildren\<close>. The display name is what the column controller answers for the node
  when the node's item asks for it (null when there is none).
\<close>

record column =
  colId :: string
  colDef :: "abstractColDef option"
  colDisplayName :: "string option"

record originalColumnGroup =
  groupId :: string
  colGroupDef :: "abstractColDef option"
  padding :: bool
  originalParent :: "string option"
  groupDisplayName :: "string option"

text \<open>\<open>OriginalColumnGroupChild\<close>: a column, or a group with its children in order.\<close>

datatype originalColumnGroupChild =
    ColumnChild column
  | GroupChild originalColumnGroup "originalColumnGroupChild list"

fun getId :: "originalColumnGroupChild \<Rightarrow> string" where
  "getId (ColumnChild c) = colId c"
| "getId (GroupChild g kids) = groupId g"

fun getChildren :: "originalColumnGroupChild \<Rightarrow> originalColumnGroupChild list" where
  "getChildren (ColumnChild c) = []"
| "getChildren (GroupChild g kids) = kids"

text \<open>
  The guard of \<open>recursivelyAddGroupComps\<close> and of \<open>addColumnComps\<close>:
  \<open>def && def.suppressToolPanel\<close>.
\<close>

definition defSuppressed :: "abstractColDef option \<Rightarrow> bool" where
  "defSuppressed d = (case d of None \<Rightarrow> False | Some def \<Rightarrow> suppressToolPanel def)"

fun suppressed :: "originalColumnGroupChild \<Rightarrow> bool" where
  "suppressed (ColumnChild c) = defSuppressed (colDef c)"
| "suppressed (GroupChild g kids) = defSuppressed (colGroupDef g)"

fun isPadding :: "originalColumnGroupChild \<Rightarrow> bool" where
  "isPadding (ColumnChild c) = False"
| "isPadding (GroupChild g kids) = padding g"

text \<open>
  The nodes of a forest in the order a depth-first walk meets them, each with its
  ancestors (outermost first), and the same without the ancestors.
\<close>

fun nodesWithAncestors ::
  "originalColumnGroupChild list \<Rightarrow> originalColumnGroupChild list \<Rightarrow>
   (originalColumnGroupChild list \<times> originalColumnGroupChild) list" where
  "nodesWithAncestors anc [] = []"
| "nodesWithAncestors anc (ColumnChild c # rest) =
     (anc, ColumnChild c) # nodesWithAncestors anc rest"
| "nodesWithAncestors anc (GroupChild g kids # rest) =
     (anc, GroupChild g kids) # nodesWithAncestors (anc @ [GroupChild g kids]) kids
       @ nodesWithAncestors anc rest"

fun allNodes :: "originalColumnGroupChild list \<Rightarrow> originalColumnGroupChild list" where
  "allNodes [] = []"
| "allNodes (ColumnChild c # rest) = ColumnChild c # allNodes rest"
| "allNodes (GroupChild g kids # rest) = GroupChild g kids # allNodes kids @ allNodes rest"

definition treeIds :: "originalColumnGroupChild list \<Rightarrow> string list" where
  "treeIds tree = map getId (allNodes tree)"

subsection \<open>Objects used as dictionaries\<close>

text \<open>
  \<open>columnComps\<close> and \<open>filterResults\<close> are JavaScript objects indexed by id. An object is
  the list of its own properties in the order they were first assigned: \<open>obj[key]\<close> reads
  the property (\<open>None\<close> for undefined), \<open>obj[key] = v\<close> overwrites it in place or appends
  it. Ids are taken not to be names that \<open>Object.prototype\<close> defines, and not to be
  integer-like (JavaScript enumerates such keys first); no result below depends on the
  order of enumeration beyond the order of the notifications in the trace.
\<close>

type_synonym 'v jsObject = "(string \<times> 'v) list"

definition objGet :: "'v jsObject \<Rightarrow> string \<Rightarrow> 'v option" where
  "objGet obj key = map_of obj key"

definition objSet :: "string \<Rightarrow> 'v \<Rightarrow> 'v jsObject \<Rightarrow> 'v jsObject" where
  "objSet key v obj = AList.update key v obj"

definition objKeys :: "'v jsObject \<Rightarrow> string list" where
  "objKeys obj = map fst obj"

subsection \<open>Strings and arrays\<close>

text \<open>
  \<open>String.prototype.toLowerCase\<close>, on the ASCII letters (a string is a list of bytes
  here; the source's strings are UTF-16 and lower-case every cased letter).
\<close>

definition charToLower :: "char \<Rightarrow> char" where
  "charToLower c =
     (let n = (of_char c :: nat) in if 65 \<le> n \<and> n \<le> 90 then char_of (n + 32) else c)"

definition toLowerCase :: "string \<Rightarrow> string" where
  "toLowerCase s = map charToLower s"

text \<open>
  \<open>String.prototype.indexOf\<close>: the first position at which the string continues with
  \<open>sub\<close>, or \<open>-1\<close>.
\<close>

fun indexOfFrom :: "int \<Rightarrow> string \<Rightarrow> string \<Rightarrow> int" where
  "indexOfFrom i [] sub = (if sub = [] then i else - 1)"
| "indexOfFrom i (c # cs) sub =
     (if prefix sub (c # cs) then i else indexOfFrom (i + 1) cs sub)"

definition indexOf :: "string \<Rightarrow> string \<Rightarrow> int" where
  "indexOf s sub = indexOfFrom 0 s sub"

text \<open>\<open>Array.prototype.indexOf\<close>: the first index of the element, or \<open>-1\<close>.\<close>

fun arrayIndexOfFrom :: "int \<Rightarrow> 'a list \<Rightarrow> 'a \<Rightarrow> int" where
  "arrayIndexOfFrom i [] x = - 1"
| "arrayIndexOfFrom i (y # ys) x = (if y = x then i else arrayIndexOfFrom (i + 1) ys x)"

definition arrayIndexOf :: "'a list \<Rightarrow> 'a \<Rightarrow> int" where
  "arrayIndexOf xs x = arrayIndexOfFrom 0 xs x"

text \<open>
  Modelled from the spec: \<open>_.exists\<close>, a utility of the grid's core that is not among the
  sources. The spec of \<open>setFilterText\<close> has an empty or absent text disable filtering.
\<close>

definition exists_value :: "string option \<Rightarrow> bool" where
  "exists_value v = (case v of None \<Rightarrow> False | Some s \<Rightarrow> s \<noteq> [])"

subsection \<open>Tool panel items\<close>

text \<open>
  Modelled from the spec: the item classes \<open>ToolPanelColumnGroupComp\<close> and
  \<open>ToolPanelColumnComp\<close> are not among the sources. The spec's tree item adapter is an
  item that exposes a display name (used by the filter), a display flag that can be set
  with no other change of state, whether it is expandable (groups only, and only if they
  contain a displayable child; a child is read as displayable when it is not suppressed
  for the panel) and, for groups, an expansion flag that can be read and set, whose
  default is the panel's "expand groups by default" flag. The record also keeps the
  constructor arguments the panel passes (\<open>groupsExist\<close> goes to column items only).
\<close>

datatype itemKind = ToolPanelColumnGroupComp | ToolPanelColumnComp

record columnItem =
  kind :: itemKind
  displayName :: "string option"
  columnDept :: nat
  itemAllowDragging :: bool
  itemGroupsExist :: "bool option"
  expandable :: bool
  expanded :: bool
  displayed :: bool

definition newToolPanelColumnGroupComp ::
  "originalColumnGroup \<Rightarrow> originalColumnGroupChild list \<Rightarrow> nat \<Rightarrow> bool \<Rightarrow> bool \<Rightarrow> columnItem" where
  "newToolPanelColumnGroupComp columnGroup kids dept allowDrag expandByDefault =
     \<lparr> kind = ToolPanelColumnGroupComp,
       displayName = groupDisplayName columnGroup,
       columnDept = dept,
       itemAllowDragging = allowDrag,
       itemGroupsExist = None,
       expandable = list_ex (\<lambda>k. \<not> suppressed k) kids,
       expanded = expandByDefault,
       displayed = True \<rparr>"

definition newToolPanelColumnComp :: "column \<Rightarrow> nat \<Rightarrow> bool \<Rightarrow> bool \<Rightarrow> columnItem" where
  "newToolPanelColumnComp col dept allowDrag groupsExist =
     \<lparr> kind = ToolPanelColumnComp,
       displayName = colDisplayName col,
       columnDept = dept,
       itemAllowDragging = allowDrag,
       itemGroupsExist = Some groupsExist,
       expandable = False,
       expanded = False,
       displayed = True \<rparr>"

definition getDisplayName :: "columnItem \<Rightarrow> string option" where
  "getDisplayName item = displayName item"

definition isExpandable :: "columnItem \<Rightarrow> bool" where
  "isExpandable item = expandable item"

definition isExpanded :: "columnItem \<Rightarrow> bool" where
  "isExpanded item = expanded item"

definition setExpanded :: "bool \<Rightarrow> columnItem \<Rightarrow> columnItem" where
  "setExpanded v item = item\<lparr>expanded := v\<rparr>"

definition setDisplayed :: "bool \<Rightarrow> columnItem \<Rightarrow> columnItem" where
  "setDisplayed v item = item\<lparr>displayed := v\<rparr>"

subsection \<open>The panel and its collaborators\<close>

text \<open>\<open>SELECTED_STATE\<close>, the payload of the panel's \<open>groupExpanded\<close> event.\<close>

datatype selected_state = CHECKED | UNCHECKED | INDETERMINATE

text \<open>What the panel does to the outside, in order.\<close>

datatype effect =
    ListenerAdded string
  | ItemDestroyed string
  | SelectAllChanged string bool
  | SetColumnsVisible "string list" bool
  | ConsoleWarn "string list"
  | GroupExpandedEvent selected_state

record toolPanelColumnCompParams =
  syncLayoutWithGrid :: bool
  contractColumnSelection :: bool

text \<open>What the column controller and the column api answer when the panel asks.\<close>

record grid =
  isReady :: bool
  getPrimaryColumnTree :: "originalColumnGroupChild list"
  isPrimaryColumnGroupsPresent :: bool
  isPivotMode :: bool
  getPrimaryColumns :: "string list"

text \<open>
  The fields of the panel. \<open>gui\<close> is the panel's element, as the ids of the items whose
  elements were appended to it. \<open>columnTree\<close> and \<open>columnComps\<close> hold values of their
  declared types: the record describes a panel whose fields have been assigned.
\<close>

record panel =
  params :: toolPanelColumnCompParams
  allowDragging :: bool
  columnTree :: "originalColumnGroupChild list"
  columnComps :: "columnItem jsObject"
  filterText :: "string option"
  expandGroupsByDefault :: bool
  gui :: "string list"
  trace :: "effect list"

subsection \<open>Building the items\<close>

text \<open>
  \<open>destroyColumnComps\<close>: clears the panel's element, destroys every item and starts an
  empty \<open>columnComps\<close>.
\<close>

definition destroyColumnComps :: "panel \<Rightarrow> panel" where
  "destroyColumnComps p =
     p\<lparr> gui := [],
        trace := trace p @ map (\<lambda>(key, renderedItem). ItemDestroyed key) (columnComps p),
        columnComps := [] \<rparr>"

definition addColumnComps :: "column \<Rightarrow> nat \<Rightarrow> bool \<Rightarrow> panel \<Rightarrow> panel" where
  "addColumnComps col dept groupsExist p =
     (if defSuppressed (colDef col) then p
      else
        (let columnComp = newToolPanelColumnComp col dept (allowDragging p) groupsExist
         in p\<lparr> gui := gui p @ [colId col],
               columnComps := objSet (colId col) columnComp (columnComps p) \<rparr>))"

text \<open>
  \<open>recursivelyAddComps\<close> dispatches on the class of each child, in order;
  \<open>recursivelyAddGroupComps\<close> returns at once for a suppressed group, makes an item for a
  group that is not padding, and goes on into the children. The caller passes groups only;
  the equation for a column is there to make the function total.
\<close>

fun recursivelyAddComps ::
      "originalColumnGroupChild list \<Rightarrow> nat \<Rightarrow> bool \<Rightarrow> panel \<Rightarrow> panel"
  and recursivelyAddGroupComps ::
      "originalColumnGroupChild \<Rightarrow> nat \<Rightarrow> bool \<Rightarrow> panel \<Rightarrow> panel" where
  "recursivelyAddComps [] dept groupsExist p = p"
| "recursivelyAddComps (ColumnChild c # rest) dept groupsExist p =
     recursivelyAddComps rest dept groupsExist (addColumnComps c dept groupsExist p)"
| "recursivelyAddComps (GroupChild g kids # rest) dept groupsExist p =
     recursivelyAddComps rest dept groupsExist
       (recursivelyAddGroupComps (GroupChild g kids) dept groupsExist p)"
| "recursivelyAddGroupComps (GroupChild g kids) dept groupsExist p =
     (if defSuppressed (colGroupDef g) then p
      else
        (let p1 =
               (if \<not> padding g
                then
                  (let renderedGroup =
                         newToolPanelColumnGroupComp g kids dept (allowDragging p)
                           (expandGroupsByDefault p)
                   in p\<lparr> gui := gui p @ [groupId g],
                         columnComps := objSet (groupId g) renderedGroup (columnComps p) \<rparr>)
                else p);
             newDept = (if \<not> padding g then dept + 1 else dept)
         in recursivelyAddComps kids newDept groupsExist p1))"
| "recursivelyAddGroupComps (ColumnChild c) dept groupsExist p = p"

subsection \<open>Filtering\<close>

text \<open>
  The value a node gets in \<open>createFilterResults\<close> when it has no item (or the filter text
  is falsy): \<open>!!(item instanceof OriginalColumnGroup && item.getOriginalParent())\<close>.
\<close>

fun dummyGroupResult :: "originalColumnGroupChild \<Rightarrow> bool" where
  "dummyGroupResult (ColumnChild c) = False"
| "dummyGroupResult (GroupChild g kids) = (originalParent g \<noteq> None)"

text \<open>The body of the loop of \<open>recursivelyCheckFilter\<close> that decides \<open>filterPasses\<close>.\<close>

definition filterPasses ::
  "columnItem jsObject \<Rightarrow> string option \<Rightarrow> originalColumnGroupChild \<Rightarrow> bool \<Rightarrow> bool" where
  "filterPasses comps ftext item atLeastOneChildPassed =
     (if atLeastOneChildPassed then True
      else
        (case objGet comps (getId item) of
           None \<Rightarrow> dummyGroupResult item
         | Some cmp \<Rightarrow>
             (case ftext of
                None \<Rightarrow> dummyGroupResult item
              | Some f \<Rightarrow>
                  if f = [] then dummyGroupResult item
                  else
                    (case getDisplayName cmp of
                       None \<Rightarrow> True
                     | Some dn \<Rightarrow> 0 \<le> indexOf (toLowerCase dn) f))))"

text \<open>
  \<open>recursivelyCheckFilter\<close>: the loop over the items of one level, with the local
  \<open>atLeastOneThisLevelPassed\<close> and the object \<open>filterResults\<close> that the closure writes.
  Of the panel it reads \<open>columnComps\<close> and \<open>filterText\<close>.
\<close>

fun recursivelyCheckFilter ::
  "columnItem jsObject \<Rightarrow> string option \<Rightarrow> originalColumnGroupChild list \<Rightarrow> bool \<Rightarrow>
   bool jsObject \<Rightarrow> bool \<times> bool jsObject" where
  "recursivelyCheckFilter comps ftext [] atLeastOneThisLevelPassed filterResults =
     (atLeastOneThisLevelPassed, filterResults)"
| "recursivelyCheckFilter comps ftext (ColumnChild c # items) atLeastOneThisLevelPassed
     filterResults =
     (let passes = filterPasses comps ftext (ColumnChild c) False
      in recursivelyCheckFilter comps ftext items
           (if passes then True else atLeastOneThisLevelPassed)
           (objSet (colId c) passes filterResults))"
| "recursivelyCheckFilter comps ftext (GroupChild g kids # items) atLeastOneThisLevelPassed
     filterResults =
     (let below = recursivelyCheckFilter comps ftext kids False filterResults;
          passes = filterPasses comps ftext (GroupChild g kids) (fst below)
      in recursivelyCheckFilter comps ftext items
           (if passes then True else atLeastOneThisLevelPassed)
           (objSet (groupId g) passes (snd below)))"

definition createFilterResults :: "panel \<Rightarrow> bool jsObject" where
  "createFilterResults p =
     snd (recursivelyCheckFilter (columnComps p) (filterText p) (columnTree p) False [])"

subsection \<open>Visibility\<close>

text \<open>\<open>filterResults ? filterResults[child.getId()] : true\<close>; undefined is falsy.\<close>

definition passesFilter :: "bool jsObject option \<Rightarrow> string \<Rightarrow> bool" where
  "passesFilter filterResults key =
     (case filterResults of
        None \<Rightarrow> True
      | Some results \<Rightarrow> (case objGet results key of None \<Rightarrow> False | Some b \<Rightarrow> b))"

text \<open>The first statement of the loop of \<open>recursivelySetVisibility\<close>.\<close>

definition setChildDisplayed ::
  "string \<Rightarrow> bool \<Rightarrow> bool jsObject option \<Rightarrow> columnItem jsObject \<Rightarrow> columnItem jsObject" where
  "setChildDisplayed key parentGroupsOpen filterResults comps =
     (case objGet comps key of
        None \<Rightarrow> comps
      | Some cmp \<Rightarrow>
          objSet key (setDisplayed (parentGroupsOpen \<and> passesFilter filterResults key) cmp)
            comps)"

text \<open>
  \<open>childrenOpen\<close>, from the item \<open>comp\<close> that the iteration fetched for the group
  (\<open>None\<close> when there is none) and from \<open>parentGroupsOpen\<close>.
\<close>

definition childrenOpen :: "columnItem option \<Rightarrow> bool \<Rightarrow> bool" where
  "childrenOpen cmp parentGroupsOpen =
     (case cmp of
        Some item \<Rightarrow> (if parentGroupsOpen then isExpanded item else False)
      | None \<Rightarrow> parentGroupsOpen)"

text \<open>
  The walk reads and writes \<open>this.columnComps\<close> only, so it takes and returns the
  registry. An iteration fetches \<open>comp\<close> once, calls \<open>setDisplayed\<close> on it and then
  reads its expansion flag, which \<open>setDisplayed\<close> leaves as it is.
\<close>

fun recursivelySetVisibility ::
  "originalColumnGroupChild list \<Rightarrow> bool \<Rightarrow> bool jsObject option \<Rightarrow>
   columnItem jsObject \<Rightarrow> columnItem jsObject" where
  "recursivelySetVisibility [] parentGroupsOpen filterResults comps = comps"
| "recursivelySetVisibility (ColumnChild c # rest) parentGroupsOpen filterResults comps =
     recursivelySetVisibility rest parentGroupsOpen filterResults
       (setChildDisplayed (colId c) parentGroupsOpen filterResults comps)"
| "recursivelySetVisibility (GroupChild g kids # rest) parentGroupsOpen filterResults comps =
     recursivelySetVisibility rest parentGroupsOpen filterResults
       (recursivelySetVisibility kids
          (childrenOpen (objGet comps (groupId g)) parentGroupsOpen) filterResults
          (setChildDisplayed (groupId g) parentGroupsOpen filterResults comps))"

definition updateVisibilityOfRows :: "panel \<Rightarrow> panel" where
  "updateVisibilityOfRows p =
     (let filterResults =
            (if exists_value (filterText p) then Some (createFilterResults p) else None)
      in p\<lparr> columnComps :=
              recursivelySetVisibility (columnTree p) True filterResults (columnComps p) \<rparr>)"

definition setFilterText :: "string option \<Rightarrow> panel \<Rightarrow> panel" where
  "setFilterText ftext p =
     updateVisibilityOfRows
       (p\<lparr> filterText := (if exists_value ftext then map_option toLowerCase ftext else None) \<rparr>)"

definition onColumnsChanged :: "grid \<Rightarrow> panel \<Rightarrow> panel" where
  "onColumnsChanged grd p =
     (let p1 = destroyColumnComps p;
          p2 = p1\<lparr> columnTree := getPrimaryColumnTree grd \<rparr>;
          groupsExist = isPrimaryColumnGroupsPresent grd;
          p3 = recursivelyAddComps (columnTree p2) 0 groupsExist p2
      in updateVisibilityOfRows p3)"

definition init :: "grid \<Rightarrow> toolPanelColumnCompParams \<Rightarrow> bool \<Rightarrow> panel \<Rightarrow> panel" where
  "init grd prms allowDrag p =
     (let p1 = p\<lparr> params := prms, allowDragging := allowDrag \<rparr>;
          p2 = (if syncLayoutWithGrid (params p1)
                then p1\<lparr> trace := trace p1 @ [ListenerAdded ''EVENT_COLUMN_MOVED''] \<rparr>
                else p1);
          p3 = p2\<lparr> trace := trace p2 @ [ListenerAdded ''EVENT_COLUMN_EVERYTHING_CHANGED''] \<rparr>;
          p4 = p3\<lparr> expandGroupsByDefault := \<not> contractColumnSelection (params p3) \<rparr>
      in if isReady grd then onColumnsChanged grd p4 else p4)"

subsection \<open>Expansion\<close>

text \<open>
  \<open>fireExpandedEvent\<close>: the closure \<open>recursiveFunc\<close> with the two counters it
  increments, as a pair (expanded, not expanded).
\<close>

fun recursiveFunc ::
  "columnItem jsObject \<Rightarrow> originalColumnGroupChild list \<Rightarrow> nat \<times> nat \<Rightarrow> nat \<times> nat" where
  "recursiveFunc comps [] counts = counts"
| "recursiveFunc comps (ColumnChild c # items) counts = recursiveFunc comps items counts"
| "recursiveFunc comps (GroupChild g kids # items) counts =
     (let counts1 =
            (case objGet comps (groupId g) of
               None \<Rightarrow> counts
             | Some cmp \<Rightarrow>
                 (if isExpanded cmp then (fst counts + 1, snd counts)
                  else (fst counts, snd counts + 1)))
      in recursiveFunc comps items (recursiveFunc comps kids counts1))"

definition expandedState :: "nat \<Rightarrow> nat \<Rightarrow> selected_state" where
  "expandedState expandedCount notExpandedCount =
     (if expandedCount > 0 \<and> notExpandedCount > 0 then INDETERMINATE
      else if notExpandedCount > 0 then UNCHECKED
      else CHECKED)"

definition fireExpandedEvent :: "panel \<Rightarrow> panel" where
  "fireExpandedEvent p =
     (let counts = recursiveFunc (columnComps p) (columnTree p) (0, 0);
          state = expandedState (fst counts) (snd counts)
      in p\<lparr> trace := trace p @ [GroupExpandedEvent state] \<rparr>)"

definition onGroupExpanded :: "panel \<Rightarrow> panel" where
  "onGroupExpanded p = fireExpandedEvent (updateVisibilityOfRows p)"

text \<open>
  \<open>_.iterateObject\<close> calls its callback on every property of \<open>columnComps\<close>; the callbacks
  of \<open>doSetExpandedAll\<close> and \<open>setGroupsExpanded\<close> change the item they are given, and the
  second one also pushes the key on \<open>expandedGroupIds\<close>.
\<close>

fun doSetExpandedAllLoop :: "bool \<Rightarrow> columnItem jsObject \<Rightarrow> columnItem jsObject" where
  "doSetExpandedAllLoop v [] = []"
| "doSetExpandedAllLoop v ((key, renderedItem) # rest) =
     (key, if isExpandable renderedItem then setExpanded v renderedItem else renderedItem)
       # doSetExpandedAllLoop v rest"

definition doSetExpandedAll :: "bool \<Rightarrow> panel \<Rightarrow> panel" where
  "doSetExpandedAll v p = p\<lparr> columnComps := doSetExpandedAllLoop v (columnComps p) \<rparr>"

fun setGroupsExpandedLoop ::
  "bool \<Rightarrow> string list \<Rightarrow> columnItem jsObject \<Rightarrow> string list \<Rightarrow>
   columnItem jsObject \<times> string list" where
  "setGroupsExpandedLoop expand groupIds [] expandedGroupIds = ([], expandedGroupIds)"
| "setGroupsExpandedLoop expand groupIds ((key, renderedItem) # rest) expandedGroupIds =
     (let shouldSetGroupExpanded =
            (isExpandable renderedItem \<and> arrayIndexOf groupIds key > - 1);
          after =
            setGroupsExpandedLoop expand groupIds rest
              (if shouldSetGroupExpanded then expandedGroupIds @ [key] else expandedGroupIds)
      in ((key, if shouldSetGroupExpanded then setExpanded expand renderedItem
                else renderedItem) # fst after,
          snd after))"

definition setGroupsExpanded :: "bool \<Rightarrow> string list option \<Rightarrow> panel \<Rightarrow> panel" where
  "setGroupsExpanded expand groupIds p =
     (case groupIds of
        None \<Rightarrow> doSetExpandedAll expand p
      | Some ids \<Rightarrow>
          (let looped = setGroupsExpandedLoop expand ids (columnComps p) [];
               p1 = p\<lparr> columnComps := fst looped \<rparr>;
               expandedGroupIds = snd looped;
               unrecognisedGroupIds =
                 filter (\<lambda>groupId. arrayIndexOf expandedGroupIds groupId < 0) ids
           in if length unrecognisedGroupIds > 0
              then p1\<lparr> trace := trace p1 @ [ConsoleWarn unrecognisedGroupIds] \<rparr>
              else p1))"

subsection \<open>Selection\<close>

text \<open>
  Modelled from the spec: \<open>onSelectAllChanged\<close> is a method of the item classes, which
  are not among the sources. The spec has each item receive an individual
  selection-changed notification; what an item does with it happens in the grid, and the
  trace records that the item was notified.
\<close>

definition doSetSelectedAll :: "grid \<Rightarrow> bool \<Rightarrow> panel \<Rightarrow> panel" where
  "doSetSelectedAll grd checked p =
     (if isPivotMode grd
      then p\<lparr> trace := trace p @ map (\<lambda>(key, col). SelectAllChanged key checked) (columnComps p) \<rparr>
      else
        (let primaryCols = getPrimaryColumns grd
         in p\<lparr> trace := trace p @ [SetColumnsVisible primaryCols checked] \<rparr>))"

section \<open>Vocabulary of the properties\<close>

text \<open>
  The group items that the walk of \<open>fireExpandedEvent\<close> counts: for every group node of
  the tree, in the order of the walk, the item registered under the group's id, if any.
\<close>

definition countedGroupItems ::
  "columnItem jsObject \<Rightarrow> originalColumnGroupChild list \<Rightarrow> columnItem list" where
  "countedGroupItems comps tree =
     concat (map (\<lambda>node. case node of
                             ColumnChild c \<Rightarrow> []
                           | GroupChild g kids \<Rightarrow>
                               (case objGet comps (groupId g) of None \<Rightarrow> [] | Some item \<Rightarrow> [item]))
              (allNodes tree))"

text \<open>An item without its display flag, and a registry of such items.\<close>

definition core :: "columnItem \<Rightarrow> columnItem" where
  "core item = item\<lparr>displayed := True\<rparr>"

definition cores :: "columnItem jsObject \<Rightarrow> columnItem jsObject" where
  "cores comps = map (\<lambda>(key, item). (key, core item)) comps"

text \<open>
  What a call appended to the trace, and the two kinds of effect that \<open>doSetSelectedAll\<close>
  can have: the notification of one item, and the bulk call on the column api.
\<close>

definition addedTrace :: "panel \<Rightarrow> panel \<Rightarrow> effect list" where
  "addedTrace before after = drop (length (trace before)) (trace after)"

fun isItemNotification :: "effect \<Rightarrow> bool" where
  "isItemNotification (SelectAllChanged key checked) = True"
| "isItemNotification e = False"

fun isBulkCall :: "effect \<Rightarrow> bool" where
  "isBulkCall (SetColumnsVisible cols checked) = True"
| "isBulkCall e = False"

text \<open>
  The requested ids that no expandable item of the registry answers to, in the order of
  the request.
\<close>

definition unmatchedIds :: "columnItem jsObject \<Rightarrow> string list \<Rightarrow> string list" where
  "unmatchedIds comps ids =
     filter (\<lambda>groupId. \<not> list_ex (\<lambda>(key, item). key = groupId \<and> isExpandable item) comps) ids"

text \<open>Every group item of a registry has the given expansion flag.\<close>

definition groupItemsHaveExpansion :: "bool \<Rightarrow> columnItem jsObject \<Rightarrow> bool" where
  "groupItemsHaveExpansion v comps =
     list_all (\<lambda>(key, item). kind item \<noteq> ToolPanelColumnGroupComp \<or> isExpanded item = v) comps"

text \<open>
  A node, given with its ancestors, that is neither suppressed nor a padding group nor
  below a suppressed group; the ids of such nodes in a forest; and the number of entries
  an object has under a key.
\<close>

definition materialised :: "originalColumnGroupChild list \<Rightarrow> originalColumnGroupChild \<Rightarrow> bool" where
  "materialised anc node = (\<not> suppressed node \<and> \<not> isPadding node \<and> \<not> list_ex suppressed anc)"

definition renderedIds :: "originalColumnGroupChild list \<Rightarrow> originalColumnGroupChild list \<Rightarrow> string list" where
  "renderedIds anc tree =
     map (\<lambda>(a, node). getId node) (filter (\<lambda>(a, node). materialised a node) (nodesWithAncestors anc tree))"

definition entriesFor :: "string \<Rightarrow> 'v jsObject \<Rightarrow> nat" where
  "entriesFor key obj = length (filter (\<lambda>(k, v). k = key) obj)"

text \<open>
  The filter's verdict on a node, by recursion over the node: the value the loop of
  \<open>recursivelyCheckFilter\<close> computes for it from the verdicts on its children.
\<close>

fun nodePasses :: "columnItem jsObject \<Rightarrow> string option \<Rightarrow> originalColumnGroupChild \<Rightarrow> bool" where
  "nodePasses comps ftext (ColumnChild c) = filterPasses comps ftext (ColumnChild c) False"
| "nodePasses comps ftext (GroupChild g kids) =
     filterPasses comps ftext (GroupChild g kids) (list_ex (nodePasses comps ftext) kids)"

text \<open>
  The entry of a node in the filter results of a panel, and whether the entry of one of
  the node's children is \<open>true\<close>.
\<close>

definition filterResult :: "panel \<Rightarrow> originalColumnGroupChild \<Rightarrow> bool option" where
  "filterResult p node = objGet (createFilterResults p) (getId node)"

definition anyChildPasses :: "panel \<Rightarrow> originalColumnGroupChild \<Rightarrow> bool" where
  "anyChildPasses p node = list_ex (\<lambda>child. filterResult p child = Some True) (getChildren node)"

text \<open>
  The expansion flag and the display flag of the item of a node, read as true for a node
  that has no item.
\<close>

definition expandedOrNoItem :: "columnItem jsObject \<Rightarrow> originalColumnGroupChild \<Rightarrow> bool" where
  "expandedOrNoItem comps node =
     (case objGet comps (getId node) of None \<Rightarrow> True | Some item \<Rightarrow> isExpanded item)"

definition displayedOrNoItem :: "columnItem jsObject \<Rightarrow> originalColumnGroupChild \<Rightarrow> bool" where
  "displayedOrNoItem comps node =
     (case objGet comps (getId node) of None \<Rightarrow> True | Some item \<Rightarrow> displayed item)"

text \<open>
  The display flags of the registered items. Then, for the proof that the walk of
  \<open>recursivelySetVisibility\<close> can be repeated: one assignment of a display flag to the
  item under a key, the same on a single item, and the assignments the walk makes, in its
  order, when the expansion flags are read from a registry that is kept fixed.
\<close>

definition displayFlags :: "panel \<Rightarrow> (string \<times> bool) list" where
  "displayFlags p = map (\<lambda>(key, item). (key, displayed item)) (columnComps p)"

definition writeFlag :: "string \<times> bool \<Rightarrow> columnItem jsObject \<Rightarrow> columnItem jsObject" where
  "writeFlag w comps =
     (case objGet comps (fst w) of
        None \<Rightarrow> comps
      | Some item \<Rightarrow> objSet (fst w) (setDisplayed (snd w) item) comps)"

definition itemWrite :: "string \<Rightarrow> string \<times> bool \<Rightarrow> columnItem \<Rightarrow> columnItem" where
  "itemWrite key w item = (if fst w = key then setDisplayed (snd w) item else item)"

fun writes ::
  "columnItem jsObject \<Rightarrow> bool jsObject option \<Rightarrow> originalColumnGroupChild list \<Rightarrow> bool \<Rightarrow>
   (string \<times> bool) list" where
  "writes comps0 fr [] parentGroupsOpen = []"
| "writes comps0 fr (ColumnChild c # rest) parentGroupsOpen =
     (colId c, parentGroupsOpen \<and> passesFilter fr (colId c)) # writes comps0 fr rest parentGroupsOpen"
| "writes comps0 fr (GroupChild g kids # rest) parentGroupsOpen =
     (groupId g, parentGroupsOpen \<and> passesFilter fr (groupId g))
       # writes comps0 fr kids (childrenOpen (objGet comps0 (groupId g)) parentGroupsOpen)
       @ writes comps0 fr rest parentGroupsOpen"

section \<open>Example panels\<close>

definition mkColumn :: "string \<Rightarrow> bool \<Rightarrow> string \<Rightarrow> originalColumnGroupChild" where
  "mkColumn i sp nm =
     ColumnChild \<lparr> colId = i, colDef = Some \<lparr> suppressToolPanel = sp \<rparr>,
                   colDisplayName = Some nm \<rparr>"

definition mkGroup ::
  "string \<Rightarrow> bool \<Rightarrow> string option \<Rightarrow> string \<Rightarrow> originalColumnGroupChild list \<Rightarrow>
   originalColumnGroupChild" where
  "mkGroup i sp par nm kids =
     GroupChild \<lparr> groupId = i, colGroupDef = Some \<lparr> suppressToolPanel = sp \<rparr>,
                  padding = False, originalParent = par, groupDisplayName = Some nm \<rparr> kids"

definition mkPadding ::
  "string \<Rightarrow> string option \<Rightarrow> originalColumnGroupChild list \<Rightarrow> originalColumnGroupChild" where
  "mkPadding i par kids =
     GroupChild \<lparr> groupId = i, colGroupDef = None, padding = True, originalParent = par,
                  groupDisplayName = None \<rparr> kids"

text \<open>
  A tree with a group \<open>A\<close> of two columns and a subgroup \<open>B\<close> of one column, a padding
  group without a parent around a column, a suppressed group around a column that is not
  itself suppressed, and a suppressed column.
\<close>

definition exampleTree :: "originalColumnGroupChild list" where
  "exampleTree =
     [ mkGroup ''A'' False None ''Accounts''
         [ mkColumn ''revenue'' False ''Revenue'',
           mkColumn ''cost'' False ''Cost'',
           mkGroup ''B'' False (Some ''A'') ''Details''
             [ mkColumn ''leaf'' False ''Revenue share'' ] ],
       mkPadding ''pad0'' None [ mkColumn ''country'' False ''Country'' ],
       mkGroup ''S'' True None ''Secret'' [ mkColumn ''inner'' False ''Inner'' ],
       mkColumn ''hidden'' True ''Hidden'' ]"

definition exampleGrid :: grid where
  "exampleGrid =
     \<lparr> isReady = True, getPrimaryColumnTree = exampleTree,
       isPrimaryColumnGroupsPresent = True, isPivotMode = False,
       getPrimaryColumns = [''revenue'', ''cost'', ''leaf'', ''country'', ''inner'', ''hidden''] \<rparr>"

definition emptyPanel :: panel where
  "emptyPanel =
     \<lparr> params = \<lparr> syncLayoutWithGrid = False, contractColumnSelection = False \<rparr>,
       allowDragging = False, columnTree = [], columnComps = [], filterText = None,
       expandGroupsByDefault = True, gui = [], trace = [] \<rparr>"

definition examplePanel :: panel where
  "examplePanel = onColumnsChanged exampleGrid emptyPanel"

text \<open>The example panel after the subgroup \<open>B\<close> was collapsed.\<close>

definition collapsedPanel :: panel where
  "collapsedPanel = setGroupsExpanded False (Some [''B'']) examplePanel"

text \<open>A grid of two columns and no group.\<close>

definition flatGrid :: grid where
  "flatGrid =
     \<lparr> isReady = True,
       getPrimaryColumnTree = [ mkColumn ''revenue'' False ''Revenue'', mkColumn ''cost'' False ''Cost'' ],
       isPrimaryColumnGroupsPresent = False, isPivotMode = True,
       getPrimaryColumns = [''revenue'', ''cost''] \<rparr>"

definition flatPanel :: panel where
  "flatPanel = onColumnsChanged flatGrid emptyPanel"

text \<open>The panel with \<open>B\<close> collapsed and a filter text, and parameters that contract.\<close>

definition filteredPanel :: panel where
  "filteredPanel = setFilterText (Some ''Rev'') collapsedPanel"

definition contractParams :: toolPanelColumnCompParams where
  "contractParams = \<lparr> syncLayoutWithGrid = True, contractColumnSelection = True \<rparr>"

text \<open>
  The example panel under a filter text that no name contains, and a panel over a group
  \<open>G\<close> whose only child is a padding group that has \<open>G\<close> as its parent, under the same
  filter text.
\<close>

definition unmatchedPanel :: panel where
  "unmatchedPanel = setFilterText (Some ''zzz'') examplePanel"

definition nestedPaddingGrid :: grid where
  "nestedPaddingGrid =
     \<lparr> isReady = True,
       getPrimaryColumnTree =
         [ mkGroup ''G'' False None ''Group''
             [ mkPadding ''pad1'' (Some ''G'') [ mkColumn ''tax'' False ''Tax'' ] ] ],
       isPrimaryColumnGroupsPresent = True, isPivotMode = False,
       getPrimaryColumns = [''tax''] \<rparr>"

definition nestedPaddingPanel :: panel where
  "nestedPaddingPanel = setFilterText (Some ''zzz'') (onColumnsChanged nestedPaddingGrid emptyPanel)"

section \<open>Auxiliary facts\<close>

subsection \<open>Arrays, the loops over the registry and the counting walk\<close>

lemma arrayIndexOfFrom_cases:
  "0 \<le> i \<Longrightarrow> (x \<in> set xs \<longrightarrow> i \<le> arrayIndexOfFrom i xs x) \<and> (x \<notin> set xs \<longrightarrow> arrayIndexOfFrom i xs x = - 1)"
  by (induction i xs x rule: arrayIndexOfFrom.induct) auto

lemma arrayIndexOf_found: "(arrayIndexOf xs x > - 1) = (x \<in> set xs)"
  using arrayIndexOfFrom_cases [of 0 x xs] by (auto simp: arrayIndexOf_def)

lemma arrayIndexOf_missing: "(arrayIndexOf xs x < 0) = (x \<notin> set xs)"
  using arrayIndexOfFrom_cases [of 0 x xs] by (auto simp: arrayIndexOf_def)

lemma doSetExpandedAllLoop_map:
  "doSetExpandedAllLoop v comps =
     map (\<lambda>(key, item). (key, if isExpandable item then setExpanded v item else item)) comps"
  by (induction comps) auto

lemma setGroupsExpandedLoop_fst:
  "fst (setGroupsExpandedLoop expand ids comps acc) =
     map (\<lambda>(key, item). (key, if isExpandable item \<and> key \<in> set ids then setExpanded expand item else item)) comps"
  by (induction comps arbitrary: acc) (auto simp: Let_def arrayIndexOf_found)

lemma setGroupsExpandedLoop_snd:
  "snd (setGroupsExpandedLoop expand ids comps acc) =
     acc @ map fst (filter (\<lambda>(key, item). isExpandable item \<and> key \<in> set ids) comps)"
  by (induction comps arbitrary: acc) (auto simp: Let_def arrayIndexOf_found split: if_splits)

lemma recursiveFunc_counts:
  "recursiveFunc comps tree counts =
     (fst counts + length (filter isExpanded (countedGroupItems comps tree)),
      snd counts + length (filter (\<lambda>item. \<not> isExpanded item) (countedGroupItems comps tree)))"
proof (induction comps tree counts rule: recursiveFunc.induct)
  case (1 comps counts)
  then show ?case by (simp add: countedGroupItems_def)
next
  case (2 comps c items counts)
  then show ?case by (simp add: countedGroupItems_def)
next
  case (3 comps g kids items counts)
  then show ?case
    by (auto simp: countedGroupItems_def Let_def split: option.splits)
qed


subsection \<open>Registries that differ in display flags only\<close>

lemma isExpanded_core [simp]: "isExpanded (core item) = isExpanded item"
  by (simp add: core_def isExpanded_def)

lemma core_setDisplayed [simp]: "core (setDisplayed b item) = core item"
  by (simp add: core_def setDisplayed_def)

lemma objKeys_cores [simp]: "objKeys (cores comps) = objKeys comps"
  by (induction comps) (auto simp: cores_def objKeys_def)

lemma objGet_cores: "objGet (cores comps) key = map_option core (objGet comps key)"
  by (induction comps) (auto simp: cores_def objGet_def)

lemma cores_objSet:
  "objGet comps key = Some item \<Longrightarrow> core item' = core item \<Longrightarrow>
   cores (objSet key item' comps) = cores comps"
  by (induction comps) (auto simp: cores_def objGet_def objSet_def)

lemma cores_setChildDisplayed [simp]:
  "cores (setChildDisplayed key parentGroupsOpen filterResults comps) = cores comps"
  by (simp add: setChildDisplayed_def cores_objSet split: option.splits)

lemma cores_recursivelySetVisibility [simp]:
  "cores (recursivelySetVisibility tree parentGroupsOpen filterResults comps) = cores comps"
  by (induction tree parentGroupsOpen filterResults comps rule: recursivelySetVisibility.induct)
     simp_all

lemma cores_updateVisibilityOfRows [simp]:
  "cores (columnComps (updateVisibilityOfRows p)) = cores (columnComps p)"
  by (simp add: updateVisibilityOfRows_def Let_def)

lemma countedGroupItems_cores:
  "countedGroupItems (cores comps) tree = map core (countedGroupItems comps tree)"
  by (induction tree rule: allNodes.induct)
     (auto simp: countedGroupItems_def objGet_cores split: option.splits)

lemma expanded_count_cores:
  assumes "cores comps' = cores comps"
  shows "map isExpanded (countedGroupItems comps' tree) = map isExpanded (countedGroupItems comps tree)"
proof -
  have "map isExpanded (map core (countedGroupItems comps' tree))
        = map isExpanded (map core (countedGroupItems comps tree))"
    using assms countedGroupItems_cores by metis
  then show ?thesis by (simp add: comp_def)
qed

lemma updateVisibilityOfRows_frame [simp]:
  "columnTree (updateVisibilityOfRows p) = columnTree p"
  "filterText (updateVisibilityOfRows p) = filterText p"
  "expandGroupsByDefault (updateVisibilityOfRows p) = expandGroupsByDefault p"
  "trace (updateVisibilityOfRows p) = trace p"
  "gui (updateVisibilityOfRows p) = gui p"
  "params (updateVisibilityOfRows p) = params p"
  "allowDragging (updateVisibilityOfRows p) = allowDragging p"
  by (simp_all add: updateVisibilityOfRows_def Let_def)

lemma filter_length_by_map:
  "length (filter P xs) = length (filter id (map P xs))"
  by (induction xs) auto

lemma expandedState_cases:
  "(expandedState e n = INDETERMINATE) = (0 < e \<and> 0 < n)"
  "(expandedState e n = UNCHECKED) = (e = 0 \<and> 0 < n)"
  "(expandedState e n = CHECKED) = (n = 0)"
  by (auto simp: expandedState_def)

subsection \<open>The rebuild\<close>

lemma map_unchanged: "(\<And>x. x \<in> set xs \<Longrightarrow> f x = x) \<Longrightarrow> map f xs = xs"
  by (induction xs) auto

lemma set_objSet: "e \<in> set (objSet key v obj) \<Longrightarrow> e = (key, v) \<or> e \<in> set obj"
  by (induction obj) (auto simp: objSet_def split: if_splits)

lemma groupItemsHaveExpansion_objSet:
  "groupItemsHaveExpansion v comps \<Longrightarrow>
   kind item \<noteq> ToolPanelColumnGroupComp \<or> isExpanded item = v \<Longrightarrow>
   groupItemsHaveExpansion v (objSet key item comps)"
  unfolding groupItemsHaveExpansion_def list_all_iff
  by (auto dest!: set_objSet)

lemma addColumnComps_frame [simp]:
  "filterText (addColumnComps c dept ge p) = filterText p"
  "expandGroupsByDefault (addColumnComps c dept ge p) = expandGroupsByDefault p"
  "allowDragging (addColumnComps c dept ge p) = allowDragging p"
  "columnTree (addColumnComps c dept ge p) = columnTree p"
  "trace (addColumnComps c dept ge p) = trace p"
  "params (addColumnComps c dept ge p) = params p"
  by (simp_all add: addColumnComps_def Let_def)

lemma recursivelyAddComps_frame:
  "filterText (recursivelyAddComps tree dept ge p) = filterText p \<and>
   expandGroupsByDefault (recursivelyAddComps tree dept ge p) = expandGroupsByDefault p \<and>
   allowDragging (recursivelyAddComps tree dept ge p) = allowDragging p \<and>
   columnTree (recursivelyAddComps tree dept ge p) = columnTree p \<and>
   trace (recursivelyAddComps tree dept ge p) = trace p \<and>
   params (recursivelyAddComps tree dept ge p) = params p"
  "filterText (recursivelyAddGroupComps node dept ge p) = filterText p \<and>
   expandGroupsByDefault (recursivelyAddGroupComps node dept ge p) = expandGroupsByDefault p \<and>
   allowDragging (recursivelyAddGroupComps node dept ge p) = allowDragging p \<and>
   columnTree (recursivelyAddGroupComps node dept ge p) = columnTree p \<and>
   trace (recursivelyAddGroupComps node dept ge p) = trace p \<and>
   params (recursivelyAddGroupComps node dept ge p) = params p"
  by (induction tree dept ge p and node dept ge p
      rule: recursivelyAddComps_recursivelyAddGroupComps.induct)
     (simp_all add: Let_def)

lemma recursivelyAddComps_expansion:
  "groupItemsHaveExpansion (expandGroupsByDefault p) (columnComps p) \<Longrightarrow>
   groupItemsHaveExpansion (expandGroupsByDefault p)
     (columnComps (recursivelyAddComps tree dept ge p))"
  "groupItemsHaveExpansion (expandGroupsByDefault p) (columnComps p) \<Longrightarrow>
   groupItemsHaveExpansion (expandGroupsByDefault p)
     (columnComps (recursivelyAddGroupComps node dept ge p))"
proof (induction tree dept ge p and node dept ge p
      rule: recursivelyAddComps_recursivelyAddGroupComps.induct)
  case (1 dept groupsExist p)
  then show ?case by simp
next
  case (2 c rest dept groupsExist p)
  have "groupItemsHaveExpansion (expandGroupsByDefault p)
          (columnComps (addColumnComps c dept groupsExist p))"
    using 2(2)
    by (simp add: addColumnComps_def Let_def groupItemsHaveExpansion_objSet
        newToolPanelColumnComp_def)
  with 2(1) show ?case by simp
next
  case (3 g kids rest dept groupsExist p)
  from 3(1) [OF 3(3)] 3(2) show ?case
    by (simp add: recursivelyAddComps_frame del: recursivelyAddGroupComps.simps)
next
  case (4 g kids dept groupsExist p)
  show ?case
  proof (cases "defSuppressed (colGroupDef g)")
    case True
    with 4(2) show ?thesis by simp
  next
    case False
    let ?p1 = "(if \<not> padding g
                then
                  (let renderedGroup =
                         newToolPanelColumnGroupComp g kids dept (allowDragging p)
                           (expandGroupsByDefault p)
                   in p\<lparr> gui := gui p @ [groupId g],
                         columnComps := objSet (groupId g) renderedGroup (columnComps p) \<rparr>)
                else p)"
    have e: "expandGroupsByDefault ?p1 = expandGroupsByDefault p"
      by (simp add: Let_def)
    have "groupItemsHaveExpansion (expandGroupsByDefault p) (columnComps ?p1)"
      using 4(2)
      by (simp add: Let_def groupItemsHaveExpansion_objSet newToolPanelColumnGroupComp_def
          isExpanded_def)
    with 4(1) [OF False refl refl] e False show ?thesis
      by (simp add: Let_def)
  qed
next
  case (5 c dept groupsExist p)
  then show ?case by simp
qed

lemma groupItemsHaveExpansion_cores:
  assumes "cores comps' = cores comps"
  shows "groupItemsHaveExpansion v comps' = groupItemsHaveExpansion v comps"
proof -
  have "groupItemsHaveExpansion v c = groupItemsHaveExpansion v (cores c)" for c
    by (induction c) (auto simp: groupItemsHaveExpansion_def cores_def core_def isExpanded_def)
  with assms show ?thesis by metis
qed

lemma nodesWithAncestors_snd: "map snd (nodesWithAncestors anc tree) = allNodes tree"
  by (induction anc tree rule: nodesWithAncestors.induct) auto

lemma nodesWithAncestors_prefix:
  "(a, node) \<in> set (nodesWithAncestors anc tree) \<Longrightarrow> prefix anc a"
  by (induction anc tree rule: nodesWithAncestors.induct) (auto dest: append_prefixD)

lemma renderedIds_simps [simp]:
  "renderedIds anc [] = []"
  "renderedIds anc (ColumnChild c # rest) =
     (if materialised anc (ColumnChild c) then [colId c] else []) @ renderedIds anc rest"
  "renderedIds anc (GroupChild g kids # rest) =
     (if materialised anc (GroupChild g kids) then [groupId g] else [])
       @ renderedIds (anc @ [GroupChild g kids]) kids @ renderedIds anc rest"
  by (simp_all add: renderedIds_def)

lemma renderedIds_below_suppressed:
  "list_ex suppressed anc \<Longrightarrow> renderedIds anc tree = []"
proof -
  assume s: "list_ex suppressed anc"
  have "\<not> materialised a node" if "(a, node) \<in> set (nodesWithAncestors anc tree)" for a node
  proof -
    from that have "prefix anc a" by (rule nodesWithAncestors_prefix)
    then have "set anc \<subseteq> set a" by (rule set_mono_prefix)
    with s show ?thesis by (auto simp: materialised_def list_ex_iff)
  qed
  then show ?thesis
    by (auto simp: renderedIds_def filter_empty_conv)
qed

lemma objKeys_objSet: "set (objKeys (objSet key v obj)) = insert key (set (objKeys obj))"
  by (induction obj) (auto simp: objKeys_def objSet_def)

lemma distinct_objSet: "distinct (objKeys obj) \<Longrightarrow> distinct (objKeys (objSet key v obj))"
  by (simp add: objKeys_def objSet_def distinct_update)

lemma recursivelyAddComps_keys:
  "\<forall>anc. \<not> list_ex suppressed anc \<longrightarrow>
     set (objKeys (columnComps (recursivelyAddComps tree dept ge p)))
       = set (objKeys (columnComps p)) \<union> set (renderedIds anc tree)"
  "\<forall>anc. \<not> list_ex suppressed anc \<longrightarrow>
     (case node of
        ColumnChild c \<Rightarrow> True
      | GroupChild g kids \<Rightarrow>
          set (objKeys (columnComps (recursivelyAddGroupComps node dept ge p)))
            = set (objKeys (columnComps p)) \<union> set (renderedIds anc [node]))"
proof (induction tree dept ge p and node dept ge p
      rule: recursivelyAddComps_recursivelyAddGroupComps.induct)
  case (1 dept groupsExist p)
  then show ?case by simp
next
  case (2 c rest dept groupsExist p)
  show ?case
  proof (intro allI impI)
    fix anc assume a: "\<not> list_ex suppressed anc"
    have "set (objKeys (columnComps (addColumnComps c dept groupsExist p)))
          = set (objKeys (columnComps p)) \<union> set (if materialised anc (ColumnChild c) then [colId c] else [])"
      using a by (simp add: addColumnComps_def Let_def objKeys_objSet materialised_def)
    with 2 a show "set (objKeys (columnComps (recursivelyAddComps (ColumnChild c # rest) dept groupsExist p)))
       = set (objKeys (columnComps p)) \<union> set (renderedIds anc (ColumnChild c # rest))"
      by (simp add: Un_assoc)
  qed
next
  case (3 g kids rest dept groupsExist p)
  show ?case
  proof (intro allI impI)
    fix anc assume a: "\<not> list_ex suppressed anc"
    from 3(1) a have "set (objKeys (columnComps (recursivelyAddGroupComps (GroupChild g kids) dept groupsExist p)))
            = set (objKeys (columnComps p)) \<union> set (renderedIds anc [GroupChild g kids])"
      by (simp del: recursivelyAddGroupComps.simps renderedIds_simps)
    with 3(2) a show "set (objKeys (columnComps (recursivelyAddComps (GroupChild g kids # rest) dept groupsExist p)))
       = set (objKeys (columnComps p)) \<union> set (renderedIds anc (GroupChild g kids # rest))"
      by (simp add: Un_assoc del: recursivelyAddGroupComps.simps)
  qed
next
  case (4 g kids dept groupsExist p)
  show ?case
  proof (cases "defSuppressed (colGroupDef g)")
    case True
    then have "list_ex suppressed (anc @ [GroupChild g kids])" for anc by simp
    then have "renderedIds (anc @ [GroupChild g kids]) kids = []" for anc
      by (rule renderedIds_below_suppressed)
    with True show ?thesis by (simp add: materialised_def)
  next
    case False
    let ?p1 = "(if \<not> padding g
                then
                  (let renderedGroup =
                         newToolPanelColumnGroupComp g kids dept (allowDragging p)
                           (expandGroupsByDefault p)
                   in p\<lparr> gui := gui p @ [groupId g],
                         columnComps := objSet (groupId g) renderedGroup (columnComps p) \<rparr>)
                else p)"
    show ?thesis
    proof (simp only: originalColumnGroupChild.case, intro allI impI)
      fix anc assume a: "\<not> list_ex suppressed anc"
      then have a': "\<not> list_ex suppressed (anc @ [GroupChild g kids])"
        using False by simp
      have k1: "set (objKeys (columnComps ?p1))
          = set (objKeys (columnComps p)) \<union> set (if materialised anc (GroupChild g kids) then [groupId g] else [])"
        using a False by (simp add: Let_def objKeys_objSet materialised_def)
      from 4 [OF False refl refl] a'
      have "set (objKeys (columnComps (recursivelyAddComps kids (if \<not> padding g then dept + 1 else dept) groupsExist ?p1)))
          = set (objKeys (columnComps ?p1)) \<union> set (renderedIds (anc @ [GroupChild g kids]) kids)"
        by blast
      with k1 False
      show "set (objKeys (columnComps (recursivelyAddGroupComps (GroupChild g kids) dept groupsExist p)))
          = set (objKeys (columnComps p)) \<union> set (renderedIds anc [GroupChild g kids])"
        by (simp add: Let_def Un_assoc)
    qed
  qed
next
  case (5 c dept groupsExist p)
  then show ?case by simp
qed

lemma recursivelyAddComps_distinct:
  "distinct (objKeys (columnComps p)) \<Longrightarrow>
   distinct (objKeys (columnComps (recursivelyAddComps tree dept ge p)))"
  "distinct (objKeys (columnComps p)) \<Longrightarrow>
   distinct (objKeys (columnComps (recursivelyAddGroupComps node dept ge p)))"
proof (induction tree dept ge p and node dept ge p
      rule: recursivelyAddComps_recursivelyAddGroupComps.induct)
  case (2 c rest dept groupsExist p)
  then show ?case by (simp add: addColumnComps_def Let_def distinct_objSet)
next
  case (3 g kids rest dept groupsExist p)
  then show ?case by (simp del: recursivelyAddGroupComps.simps)
next
  case (4 g kids dept groupsExist p)
  then show ?case by (simp add: Let_def distinct_objSet)
qed simp_all

lemma entriesFor_distinct:
  "distinct (objKeys obj) \<Longrightarrow> entriesFor key obj = (if key \<in> set (objKeys obj) then 1 else 0)"
  by (induction obj) (auto simp: entriesFor_def objKeys_def image_iff)

lemma objGet_None_keys: "(objGet obj key = None) = (key \<notin> set (objKeys obj))"
  by (simp add: objGet_def objKeys_def map_of_eq_None_iff)

lemma nodesWithAncestors_ids:
  "map (\<lambda>(a, node). getId node) (nodesWithAncestors anc tree) = treeIds tree"
proof -
  have "map (\<lambda>(a, node). getId node) (nodesWithAncestors anc tree)
        = map getId (map snd (nodesWithAncestors anc tree))"
    by (simp add: split_def comp_def)
  then show ?thesis by (simp add: nodesWithAncestors_snd treeIds_def)
qed

lemma renderedIds_subset: "set (renderedIds anc tree) \<subseteq> set (treeIds tree)"
proof -
  have "set (renderedIds anc tree) \<subseteq> set (map (\<lambda>(a, node). getId node) (nodesWithAncestors anc tree))"
    by (auto simp: renderedIds_def)
  then show ?thesis by (simp only: nodesWithAncestors_ids)
qed

lemma renderedIds_member:
  assumes d: "distinct (treeIds tree)"
      and n: "(anc, node) \<in> set (nodesWithAncestors a0 tree)"
  shows "(getId node \<in> set (renderedIds a0 tree)) = materialised anc node"
proof
  assume "getId node \<in> set (renderedIds a0 tree)"
  then obtain a' n' where m: "(a', n') \<in> set (nodesWithAncestors a0 tree)"
      "materialised a' n'" "getId n' = getId node"
    by (auto simp: renderedIds_def)
  from d have "distinct (map (\<lambda>(a, node). getId node) (nodesWithAncestors a0 tree))"
    by (simp only: nodesWithAncestors_ids)
  then have "inj_on (\<lambda>(a, node). getId node) (set (nodesWithAncestors a0 tree))"
    by (simp add: distinct_map)
  from inj_onD [OF this _ m(1) n] m(3) have "(a', n') = (anc, node)" by simp
  with m(2) show "materialised anc node" by simp
next
  assume "materialised anc node"
  with n show "getId node \<in> set (renderedIds a0 tree)"
    by (force simp: renderedIds_def)
qed

lemma onColumnsChanged_keys:
  "set (objKeys (columnComps (onColumnsChanged grd p))) = set (renderedIds [] (getPrimaryColumnTree grd))"
  "distinct (objKeys (columnComps (onColumnsChanged grd p)))"
proof -
  let ?p2 = "(destroyColumnComps p)\<lparr> columnTree := getPrimaryColumnTree grd \<rparr>"
  let ?p3 = "recursivelyAddComps (getPrimaryColumnTree grd) 0 (isPrimaryColumnGroupsPresent grd) ?p2"
  have k: "objKeys (columnComps (onColumnsChanged grd p)) = objKeys (columnComps ?p3)"
    using objKeys_cores [of "columnComps (updateVisibilityOfRows ?p3)"]
    by (simp add: onColumnsChanged_def Let_def)
  have e: "columnComps ?p2 = []" by (simp add: destroyColumnComps_def)
  from recursivelyAddComps_keys(1) [of "getPrimaryColumnTree grd" 0 "isPrimaryColumnGroupsPresent grd" ?p2]
  have "set (objKeys (columnComps ?p3)) = set (objKeys (columnComps ?p2)) \<union> set (renderedIds [] (getPrimaryColumnTree grd))"
    by simp
  with k e show "set (objKeys (columnComps (onColumnsChanged grd p))) = set (renderedIds [] (getPrimaryColumnTree grd))"
    by (simp add: objKeys_def)
  have "distinct (objKeys (columnComps ?p3))"
    by (rule recursivelyAddComps_distinct) (simp add: e objKeys_def)
  with k show "distinct (objKeys (columnComps (onColumnsChanged grd p)))" by simp
qed

subsection \<open>The filter results\<close>

lemma indexOfFrom_sublist: "0 \<le> i \<Longrightarrow> (0 \<le> indexOfFrom i s sub) = sublist sub s"
proof (induction i s sub rule: indexOfFrom.induct)
  case (1 i sub)
  then show ?case by simp
next
  case (2 i c cs sub)
  then show ?case by (auto simp: sublist_Cons_right)
qed

lemma indexOf_sublist: "(0 \<le> indexOf s sub) = sublist sub s"
  by (simp add: indexOf_def indexOfFrom_sublist)

lemma objGet_objSet: "objGet (objSet key v obj) k = (if k = key then Some v else objGet obj k)"
  by (simp add: objGet_def objSet_def update_conv')

lemma treeIds_simps [simp]:
  "treeIds [] = []"
  "treeIds (ColumnChild c # rest) = colId c # treeIds rest"
  "treeIds (GroupChild g kids # rest) = groupId g # treeIds kids @ treeIds rest"
  by (simp_all add: treeIds_def)

lemma getId_in_treeIds: "node \<in> set (allNodes tree) \<Longrightarrow> getId node \<in> set (treeIds tree)"
  by (simp add: treeIds_def)

lemma recursivelyCheckFilter_fst:
  "fst (recursivelyCheckFilter comps ftext tree acc fr) = (acc \<or> list_ex (nodePasses comps ftext) tree)"
  by (induction comps ftext tree acc fr rule: recursivelyCheckFilter.induct)
     (auto simp: Let_def)

lemma recursivelyCheckFilter_other:
  "key \<notin> set (treeIds tree) \<Longrightarrow>
   objGet (snd (recursivelyCheckFilter comps ftext tree acc fr)) key = objGet fr key"
  by (induction comps ftext tree acc fr rule: recursivelyCheckFilter.induct)
     (auto simp: Let_def objGet_objSet)

lemma recursivelyCheckFilter_node:
  "distinct (treeIds tree) \<Longrightarrow> node \<in> set (allNodes tree) \<Longrightarrow>
   objGet (snd (recursivelyCheckFilter comps ftext tree acc fr)) (getId node)
     = Some (nodePasses comps ftext node)"
proof (induction comps ftext tree acc fr rule: recursivelyCheckFilter.induct)
  case (1 comps ftext acc fr)
  then show ?case by simp
next
  case (2 comps ftext c items acc fr)
  show ?case
  proof (cases "node = ColumnChild c")
    case True
    with 2(2) show ?thesis
      by (simp add: Let_def recursivelyCheckFilter_other objGet_objSet)
  next
    case False
    with 2 show ?thesis by (simp add: Let_def)
  qed
next
  case (3 comps ftext g kids items acc fr)
  let ?below = "recursivelyCheckFilter comps ftext kids False fr"
  let ?passes = "filterPasses comps ftext (GroupChild g kids) (fst ?below)"
  have unfold: "recursivelyCheckFilter comps ftext (GroupChild g kids # items) acc fr
      = recursivelyCheckFilter comps ftext items (if ?passes then True else acc)
          (objSet (groupId g) ?passes (snd ?below))"
    by (simp add: Let_def)
  from 3(3) have d: "groupId g \<notin> set (treeIds kids)" "groupId g \<notin> set (treeIds items)"
    "distinct (treeIds kids)" "distinct (treeIds items)" "set (treeIds kids) \<inter> set (treeIds items) = {}"
    by auto
  consider (self) "node = GroupChild g kids" | (kid) "node \<in> set (allNodes kids)"
    | (item) "node \<in> set (allNodes items)"
    using 3(4) by auto
  then show ?case
  proof cases
    case self
    then show ?thesis
      unfolding unfold using d(2)
      by (simp add: recursivelyCheckFilter_other objGet_objSet recursivelyCheckFilter_fst)
  next
    case kid
    then have i: "getId node \<in> set (treeIds kids)" by (rule getId_in_treeIds)
    with d have "getId node \<noteq> groupId g" "getId node \<notin> set (treeIds items)" by auto
    with 3(1) [OF d(3) kid] show ?thesis
      unfolding unfold by (simp add: recursivelyCheckFilter_other objGet_objSet)
  next
    case item
    from 3(2) [OF refl refl d(4) item] show ?thesis
      unfolding unfold by simp
  qed
qed

lemma createFilterResults_node:
  "distinct (treeIds (columnTree p)) \<Longrightarrow> node \<in> set (allNodes (columnTree p)) \<Longrightarrow>
   objGet (createFilterResults p) (getId node) = Some (nodePasses (columnComps p) (filterText p) node)"
  by (simp add: createFilterResults_def recursivelyCheckFilter_node)

lemma roots_in_allNodes: "set tree \<subseteq> set (allNodes tree)"
  by (induction tree rule: allNodes.induct) auto

lemma children_in_allNodes:
  "node \<in> set (allNodes tree) \<Longrightarrow> set (getChildren node) \<subseteq> set (allNodes tree)"
proof (induction tree rule: allNodes.induct)
  case (3 g kids rest)
  then show ?case using roots_in_allNodes [of kids] by auto
qed auto

lemma anyChildPasses_nodePasses:
  assumes "distinct (treeIds (columnTree p))" and "node \<in> set (allNodes (columnTree p))"
  shows "anyChildPasses p node
           = list_ex (nodePasses (columnComps p) (filterText p)) (getChildren node)"
proof -
  have "filterResult p child = Some (nodePasses (columnComps p) (filterText p) child)"
    if "child \<in> set (getChildren node)" for child
    using that children_in_allNodes [OF assms(2)] assms(1)
    by (auto simp: filterResult_def createFilterResults_node)
  then show ?thesis
    by (auto simp: anyChildPasses_def list_ex_iff)
qed

subsection \<open>The visibility walk\<close>

lemma objGet_cores_eq:
  "cores comps' = cores comps \<Longrightarrow> map_option core (objGet comps' key) = map_option core (objGet comps key)"
  by (metis objGet_cores)

lemma isExpanded_cores_eq:
  assumes "cores comps' = cores comps"
  shows "map_option isExpanded (objGet comps' key) = map_option isExpanded (objGet comps key)"
proof -
  have "map_option isExpanded (map_option core (objGet comps' key))
        = map_option isExpanded (map_option core (objGet comps key))"
    using objGet_cores_eq [OF assms] by simp
  then show ?thesis by (simp add: option.map_comp comp_def)
qed

lemma expandedOrNoItem_cores:
  assumes "cores comps' = cores comps"
  shows "expandedOrNoItem comps' node = expandedOrNoItem comps node"
proof -
  have "expandedOrNoItem c n
        = (case map_option isExpanded (objGet c (getId n)) of None \<Rightarrow> True | Some b \<Rightarrow> b)" for c n
    by (simp add: expandedOrNoItem_def split: option.splits)
  then show ?thesis by (simp only: isExpanded_cores_eq [OF assms])
qed

lemma expandedOrNoItem_setChildDisplayed [simp]:
  "expandedOrNoItem (setChildDisplayed key parentGroupsOpen fr comps) = expandedOrNoItem comps"
  by (rule ext) (rule expandedOrNoItem_cores, simp)

lemma expandedOrNoItem_recursivelySetVisibility [simp]:
  "expandedOrNoItem (recursivelySetVisibility tree parentGroupsOpen fr comps) = expandedOrNoItem comps"
  by (rule ext) (rule expandedOrNoItem_cores, simp)

lemma objGet_setChildDisplayed:
  "objGet (setChildDisplayed key parentGroupsOpen fr comps) k
     = (if k = key
        then map_option (setDisplayed (parentGroupsOpen \<and> passesFilter fr key)) (objGet comps key)
        else objGet comps k)"
  by (simp add: setChildDisplayed_def objGet_objSet split: option.splits)

lemma recursivelySetVisibility_other:
  "key \<notin> set (treeIds tree) \<Longrightarrow>
   objGet (recursivelySetVisibility tree parentGroupsOpen fr comps) key = objGet comps key"
  by (induction tree parentGroupsOpen fr comps rule: recursivelySetVisibility.induct)
     (auto simp: objGet_setChildDisplayed)

lemma childrenOpen_expandedOrNoItem:
  "childrenOpen (objGet comps (groupId g)) parentGroupsOpen
     = (parentGroupsOpen \<and> expandedOrNoItem comps (GroupChild g kids))"
  by (auto simp: childrenOpen_def expandedOrNoItem_def split: option.splits)

lemma nodesWithAncestors_id:
  assumes "(a, n) \<in> set (nodesWithAncestors b t)"
  shows "getId n \<in> set (treeIds t)"
proof -
  from assms have "n \<in> set (map snd (nodesWithAncestors b t))" by force
  then have "n \<in> set (allNodes t)" by (simp only: nodesWithAncestors_snd)
  then show ?thesis by (rule getId_in_treeIds)
qed

lemma recursivelySetVisibility_node:
  "distinct (treeIds tree) \<Longrightarrow> (anc, node) \<in> set (nodesWithAncestors a0 tree) \<Longrightarrow>
   objGet comps (getId node) = Some item \<Longrightarrow>
   objGet (recursivelySetVisibility tree parentGroupsOpen fr comps) (getId node)
     = Some (setDisplayed
               ((parentGroupsOpen \<and> list_all (expandedOrNoItem comps) (drop (length a0) anc))
                \<and> passesFilter fr (getId node)) item)"
proof (induction tree parentGroupsOpen fr comps arbitrary: a0 anc node item
       rule: recursivelySetVisibility.induct)
  case (1 parentGroupsOpen fr comps)
  then show ?case by simp
next
  case (2 c rest parentGroupsOpen fr comps)
  let ?comps1 = "setChildDisplayed (colId c) parentGroupsOpen fr comps"
  have cs: "cores ?comps1 = cores comps" by simp
  show ?case
  proof (cases "(anc, node) = (a0, ColumnChild c)")
    case True
    with 2(2,4) show ?thesis
      by (simp add: recursivelySetVisibility_other objGet_setChildDisplayed)
  next
    case False
    with 2(3) have n: "(anc, node) \<in> set (nodesWithAncestors a0 rest)" by auto
    then have "getId node \<in> set (treeIds rest)"
      by (rule nodesWithAncestors_id)
    with 2(2) have "getId node \<noteq> colId c" by auto
    with 2(4) have "objGet ?comps1 (getId node) = Some item"
      by (simp add: objGet_setChildDisplayed)
    from 2(1) [OF _ n this] 2(2) show ?thesis
      by simp
  qed
next
  case (3 g kids rest parentGroupsOpen fr comps)
  let ?G = "GroupChild g kids"
  let ?comps1 = "setChildDisplayed (groupId g) parentGroupsOpen fr comps"
  let ?open = "childrenOpen (objGet comps (groupId g)) parentGroupsOpen"
  let ?comps2 = "recursivelySetVisibility kids ?open fr ?comps1"
  have cs1: "cores ?comps1 = cores comps" by simp
  have cs2: "cores ?comps2 = cores comps" by simp
  from 3(3) have d: "groupId g \<notin> set (treeIds kids)" "groupId g \<notin> set (treeIds rest)"
    "distinct (treeIds kids)" "distinct (treeIds rest)" "set (treeIds kids) \<inter> set (treeIds rest) = {}"
    by auto
  note ids = nodesWithAncestors_id
  consider (self) "(anc, node) = (a0, ?G)"
    | (kid) "(anc, node) \<in> set (nodesWithAncestors (a0 @ [?G]) kids)"
    | (rest) "(anc, node) \<in> set (nodesWithAncestors a0 rest)"
    using 3(4) by auto
  then show ?case
  proof cases
    case self
    then have n: "anc = a0" "node = ?G" by simp_all
    from 3(5) have it: "objGet comps (groupId g) = Some item" by (simp add: n)
    have "objGet ?comps1 (groupId g)
          = Some (setDisplayed (parentGroupsOpen \<and> passesFilter fr (groupId g)) item)"
      by (simp add: objGet_setChildDisplayed it)
    then have "objGet ?comps2 (groupId g)
          = Some (setDisplayed (parentGroupsOpen \<and> passesFilter fr (groupId g)) item)"
      by (simp only: recursivelySetVisibility_other [OF d(1)])
    then have "objGet (recursivelySetVisibility rest parentGroupsOpen fr ?comps2) (groupId g)
          = Some (setDisplayed (parentGroupsOpen \<and> passesFilter fr (groupId g)) item)"
      by (simp only: recursivelySetVisibility_other [OF d(2)])
    then show ?thesis by (simp add: n)
  next
    case kid
    from ids [OF kid] d have ne: "getId node \<noteq> groupId g" "getId node \<notin> set (treeIds rest)"
      by auto
    with 3(5) have it: "objGet ?comps1 (getId node) = Some item"
      by (simp add: objGet_setChildDisplayed)
    from nodesWithAncestors_prefix [OF kid] obtain r where anc: "anc = a0 @ [?G] @ r"
      by (auto simp: prefix_def)
    have eq: "(?open \<and> list_all (expandedOrNoItem ?comps1) (drop (length (a0 @ [?G])) anc))
          = (parentGroupsOpen \<and> list_all (expandedOrNoItem comps) (drop (length a0) anc))"
      by (auto simp: anc childrenOpen_expandedOrNoItem [of comps g parentGroupsOpen kids])
    note ih = 3(1) [OF d(3) kid it, unfolded eq]
    have "objGet (recursivelySetVisibility rest parentGroupsOpen fr ?comps2) (getId node)
          = objGet ?comps2 (getId node)"
      by (rule recursivelySetVisibility_other [OF ne(2)])
    with ih show ?thesis by (simp only: recursivelySetVisibility.simps)
  next
    case rest
    from ids [OF rest] d have ne: "getId node \<noteq> groupId g" "getId node \<notin> set (treeIds kids)"
      by auto
    with 3(5) have "objGet ?comps2 (getId node) = Some item"
      by (simp add: recursivelySetVisibility_other objGet_setChildDisplayed)
    from 3(2) [OF d(4) rest this] show ?thesis
      by simp
  qed
qed

lemma nodesWithAncestors_ancestor:
  "(anc, node) \<in> set (nodesWithAncestors a0 tree) \<Longrightarrow> a \<in> set (drop (length a0) anc) \<Longrightarrow>
   \<exists>anc_a. (anc_a, a) \<in> set (nodesWithAncestors a0 tree) \<and> prefix anc_a anc \<and>
           node \<in> set (allNodes (getChildren a))"
proof (induction a0 tree rule: nodesWithAncestors.induct)
  case (1 a0)
  then show ?case by simp
next
  case (2 a0 c rest)
  then show ?case by auto
next
  case (3 a0 g kids rest)
  let ?G = "GroupChild g kids"
  consider (self) "(anc, node) = (a0, ?G)"
    | (kid) "(anc, node) \<in> set (nodesWithAncestors (a0 @ [?G]) kids)"
    | (rest) "(anc, node) \<in> set (nodesWithAncestors a0 rest)"
    using 3(3) by auto
  then show ?case
  proof cases
    case self
    with 3(4) show ?thesis by simp
  next
    case kid
    from nodesWithAncestors_prefix [OF kid] obtain r where anc: "anc = a0 @ [?G] @ r"
      by (auto simp: prefix_def)
    show ?thesis
    proof (cases "a = ?G")
      case True
      have "node \<in> set (map snd (nodesWithAncestors (a0 @ [?G]) kids))"
        using kid by force
      then have "node \<in> set (allNodes kids)" by (simp only: nodesWithAncestors_snd)
      then show ?thesis
        using True anc by (intro exI [of _ a0]) simp
    next
      case False
      with 3(4) have "a \<in> set (drop (length (a0 @ [?G])) anc)" by (simp add: anc)
      from 3(1) [OF kid this] show ?thesis by auto
    qed
  next
    case rest
    from 3(2) [OF rest 3(4)] show ?thesis by auto
  qed
qed

lemma nodePasses_propagates:
  "node \<in> set (allNodes kids) \<Longrightarrow> nodePasses comps ftext node \<Longrightarrow>
   list_ex (nodePasses comps ftext) kids"
proof (induction kids rule: allNodes.induct)
  case 1
  then show ?case by simp
next
  case (2 c rest)
  then show ?case by auto
next
  case (3 g kids rest)
  note ih = 3
  consider (self) "node = GroupChild g kids" | (kid) "node \<in> set (allNodes kids)"
    | (rest) "node \<in> set (allNodes rest)"
    using ih(3) by auto
  then show ?case
  proof cases
    case self
    with ih(4) show ?thesis by simp
  next
    case kid
    from ih(1) [OF kid ih(4)] have "nodePasses comps ftext (GroupChild g kids)"
      by (simp add: filterPasses_def)
    then show ?thesis by simp
  next
    case rest
    from ih(2) [OF rest ih(4)] show ?thesis by simp
  qed
qed

lemma nodePasses_ancestor:
  assumes "node \<in> set (allNodes (getChildren a))" and "nodePasses comps ftext node"
  shows "nodePasses comps ftext a"
proof (cases a)
  case (ColumnChild c)
  with assms(1) show ?thesis by simp
next
  case (GroupChild g kids)
  with assms have "list_ex (nodePasses comps ftext) kids"
    by (simp add: nodePasses_propagates)
  with GroupChild show ?thesis by (simp add: filterPasses_def)
qed

subsection \<open>The visibility walk, repeated\<close>

lemma setChildDisplayed_write:
  "setChildDisplayed key parentGroupsOpen fr comps
     = writeFlag (key, parentGroupsOpen \<and> passesFilter fr key) comps"
  by (simp add: setChildDisplayed_def writeFlag_def split: option.splits)

lemma cores_write [simp]: "cores (writeFlag w comps) = cores comps"
  by (simp add: writeFlag_def cores_objSet split: option.splits)

lemma cores_fold_write [simp]: "cores (fold writeFlag ws comps) = cores comps"
  by (induction ws arbitrary: comps) simp_all

lemma childrenOpen_cores:
  assumes "cores comps = cores comps0"
  shows "childrenOpen (objGet comps key) parentGroupsOpen
           = childrenOpen (objGet comps0 key) parentGroupsOpen"
proof -
  have "childrenOpen x parentGroupsOpen
        = (case map_option isExpanded x of None \<Rightarrow> parentGroupsOpen
           | Some e \<Rightarrow> (if parentGroupsOpen then e else False))" for x
    by (simp add: childrenOpen_def split: option.splits)
  then show ?thesis by (simp only: isExpanded_cores_eq [OF assms])
qed

lemma recursivelySetVisibility_writes:
  "cores comps = cores comps0 \<Longrightarrow>
   recursivelySetVisibility tree parentGroupsOpen fr comps
     = fold writeFlag (writes comps0 fr tree parentGroupsOpen) comps"
proof (induction tree parentGroupsOpen fr comps rule: recursivelySetVisibility.induct)
  case (1 parentGroupsOpen fr comps)
  then show ?case by simp
next
  case (2 c rest parentGroupsOpen fr comps)
  then show ?case by (simp add: setChildDisplayed_write)
next
  case (3 g kids rest parentGroupsOpen fr comps)
  let ?comps1 = "writeFlag (groupId g, parentGroupsOpen \<and> passesFilter fr (groupId g)) comps"
  let ?open = "childrenOpen (objGet comps0 (groupId g)) parentGroupsOpen"
  have o: "childrenOpen (objGet comps (groupId g)) parentGroupsOpen = ?open"
    by (rule childrenOpen_cores [OF 3(3)])
  have k: "recursivelySetVisibility kids ?open fr ?comps1
           = fold writeFlag (writes comps0 fr kids ?open) ?comps1"
    using 3(1) 3(3) by (simp add: setChildDisplayed_write o)
  have r: "recursivelySetVisibility rest parentGroupsOpen fr
             (fold writeFlag (writes comps0 fr kids ?open) ?comps1)
           = fold writeFlag (writes comps0 fr rest parentGroupsOpen)
               (fold writeFlag (writes comps0 fr kids ?open) ?comps1)"
    using 3(2) 3(3) by (simp add: setChildDisplayed_write o k)
  show ?case
    by (simp add: setChildDisplayed_write o k r)
qed

lemma write_Nil [simp]: "writeFlag w [] = []"
  by (simp add: writeFlag_def objGet_def)

lemma write_Cons:
  "writeFlag w ((key, item) # comps)
     = (if fst w = key then (key, setDisplayed (snd w) item) # comps
        else (key, item) # writeFlag w comps)"
  by (auto simp: writeFlag_def objGet_def objSet_def split: option.splits)

lemma fold_write_Nil [simp]: "fold writeFlag ws [] = []"
  by (induction ws) simp_all

lemma fold_write_Cons:
  "fold writeFlag ws ((key, item) # comps)
     = (key, fold (itemWrite key) ws item) # fold writeFlag (filter (\<lambda>w. fst w \<noteq> key) ws) comps"
  by (induction ws arbitrary: item comps) (auto simp: write_Cons itemWrite_def)

lemma fold_itemWrite_cases:
  "(\<forall>item. fold (itemWrite key) ws item = item) \<or>
   (\<exists>v. \<forall>item. fold (itemWrite key) ws item = setDisplayed v item)"
proof (induction ws rule: rev_induct)
  case Nil
  then show ?case by simp
next
  case (snoc w ws)
  show ?case
  proof (cases "fst w = key")
    case True
    with snoc show ?thesis
      by (auto simp: itemWrite_def setDisplayed_def)
  next
    case False
    with snoc show ?thesis by (simp add: itemWrite_def)
  qed
qed

lemma fold_itemWrite_idem:
  "fold (itemWrite key) ws (fold (itemWrite key) ws item) = fold (itemWrite key) ws item"
  using fold_itemWrite_cases [of key ws] by (auto simp: setDisplayed_def)

lemma fold_write_idem: "fold writeFlag ws (fold writeFlag ws comps) = fold writeFlag ws comps"
proof (induction comps arbitrary: ws)
  case Nil
  then show ?case by simp
next
  case (Cons e comps)
  obtain key item where e: "e = (key, item)" by (cases e)
  show ?case
    unfolding e by (simp add: fold_write_Cons fold_itemWrite_idem Cons)
qed

lemma recursivelySetVisibility_idem:
  "recursivelySetVisibility tree parentGroupsOpen fr
     (recursivelySetVisibility tree parentGroupsOpen fr comps)
   = recursivelySetVisibility tree parentGroupsOpen fr comps"
proof -
  let ?ws = "writes comps fr tree parentGroupsOpen"
  have once: "recursivelySetVisibility tree parentGroupsOpen fr comps = fold writeFlag ?ws comps"
    by (rule recursivelySetVisibility_writes) simp
  have "recursivelySetVisibility tree parentGroupsOpen fr (fold writeFlag ?ws comps)
        = fold writeFlag ?ws (fold writeFlag ?ws comps)"
    by (rule recursivelySetVisibility_writes) simp
  then show ?thesis by (simp only: once fold_write_idem)
qed

lemma getDisplayName_core [simp]: "getDisplayName (core item) = getDisplayName item"
  by (simp add: core_def getDisplayName_def)

lemma filterPasses_cores:
  assumes "cores comps' = cores comps"
  shows "filterPasses comps' ftext item b = filterPasses comps ftext item b"
proof -
  have n: "map_option getDisplayName (objGet comps' key) = map_option getDisplayName (objGet comps key)"
    for key
  proof -
    have "map_option getDisplayName (map_option core (objGet comps' key))
        = map_option getDisplayName (map_option core (objGet comps key))"
      using objGet_cores_eq [OF assms] by simp
    then show ?thesis by (simp add: option.map_comp comp_def)
  qed
  have "filterPasses c ftext item b
        = (if b then True
           else (case map_option getDisplayName (objGet c (getId item)) of
                   None \<Rightarrow> dummyGroupResult item
                 | Some dn \<Rightarrow>
                     (case ftext of
                        None \<Rightarrow> dummyGroupResult item
                      | Some f \<Rightarrow>
                          if f = [] then dummyGroupResult item
                          else (case dn of None \<Rightarrow> True
                                | Some name \<Rightarrow> 0 \<le> indexOf (toLowerCase name) f))))" for c
    by (simp add: filterPasses_def split: option.splits)
  then show ?thesis by (simp only: n)
qed

lemma recursivelyCheckFilter_cores:
  "cores comps' = cores comps \<Longrightarrow>
   recursivelyCheckFilter comps' ftext tree acc fr = recursivelyCheckFilter comps ftext tree acc fr"
proof (induction comps ftext tree acc fr rule: recursivelyCheckFilter.induct)
  case (1 comps ftext acc fr)
  then show ?case by simp
next
  case (2 comps ftext c items acc fr)
  from 2(1) [OF refl 2(2)] show ?case
    by (simp add: Let_def filterPasses_cores [OF 2(2)])
next
  case (3 comps ftext g kids items acc fr)
  from 3(1) [OF 3(3)] 3(2) [OF refl refl 3(3)] show ?case
    by (simp add: Let_def filterPasses_cores [OF 3(3)])
qed

lemma createFilterResults_cores:
  "cores comps' = cores (columnComps p) \<Longrightarrow>
   createFilterResults (p\<lparr> columnComps := comps' \<rparr>) = createFilterResults p"
  by (simp add: createFilterResults_def recursivelyCheckFilter_cores [of comps' "columnComps p"])

lemma updateVisibilityOfRows_idem:
  "updateVisibilityOfRows (updateVisibilityOfRows p) = updateVisibilityOfRows p"
proof (cases "exists_value (filterText p)")
  case True
  then show ?thesis
    by (simp add: updateVisibilityOfRows_def Let_def createFilterResults_cores
        recursivelySetVisibility_idem)
next
  case False
  then show ?thesis
    by (simp add: updateVisibilityOfRows_def Let_def recursivelySetVisibility_idem)
qed

lemma filterText_update_same: "filterText r = x \<Longrightarrow> r\<lparr> filterText := x \<rparr> = r"
  by simp

section \<open>The properties\<close>

text \<open>
  C1. In a tree whose nodes have pairwise distinct ids, take a node that has an item.
  After \<open>updateVisibilityOfRows\<close> the item is what it was but for its display flag, and
  the display flag is true iff the node passes the filter (or filtering is disabled, the
  filter text being absent or empty), every ancestor is expanded and every ancestor is
  displayed. A node without an item has no display flag, and an ancestor without an item
  (a padding group) has neither flag and counts as expanded and displayed: the walk hands
  its own "parent groups open" down to its children unchanged.
\<close>

theorem updateVisibilityOfRows_display:
  assumes "distinct (treeIds (columnTree p))"
      and "(anc, node) \<in> set (nodesWithAncestors [] (columnTree p))"
      and "objGet (columnComps p) (getId node) = Some item"
  shows "objGet (columnComps (updateVisibilityOfRows p)) (getId node)
           = Some (setDisplayed
                     ((\<not> exists_value (filterText p) \<or> filterResult p node = Some True) \<and>
                      list_all (expandedOrNoItem (columnComps (updateVisibilityOfRows p))) anc \<and>
                      list_all (displayedOrNoItem (columnComps (updateVisibilityOfRows p))) anc)
                     item)"
proof -
  let ?c = "columnComps p" and ?t = "columnTree p"
  let ?fr = "if exists_value (filterText p) then Some (createFilterResults p) else None"
  let ?c' = "recursivelySetVisibility ?t True ?fr ?c"
  let ?pf = "\<lambda>n. \<not> exists_value (filterText p) \<or> filterResult p n = Some True"
  have upd: "columnComps (updateVisibilityOfRows p) = ?c'"
    by (simp add: updateVisibilityOfRows_def Let_def)
  have pf: "passesFilter ?fr (getId n) = ?pf n" for n
    by (cases "exists_value (filterText p)")
       (auto simp: passesFilter_def filterResult_def split: option.splits)
  have at: "objGet ?c' (getId n)
      = Some (setDisplayed (list_all (expandedOrNoItem ?c) a \<and> ?pf n) i)"
    if "(a, n) \<in> set (nodesWithAncestors [] ?t)" "objGet ?c (getId n) = Some i" for a n i
    using recursivelySetVisibility_node [OF assms(1) that(1) that(2), of True ?fr]
    by (simp only: pf list.size drop_0 simp_thms)
  have disp: "list_all (displayedOrNoItem ?c') anc"
    if e: "list_all (expandedOrNoItem ?c) anc" and passes: "?pf node"
    unfolding list_all_iff
  proof
    fix a assume a: "a \<in> set anc"
    with nodesWithAncestors_ancestor [OF assms(2), of a]
    obtain anc_a where aa: "(anc_a, a) \<in> set (nodesWithAncestors [] ?t)" "prefix anc_a anc"
        "node \<in> set (allNodes (getChildren a))"
      by auto
    show "displayedOrNoItem ?c' a"
    proof (cases "objGet ?c (getId a)")
      case None
      then have "objGet ?c' (getId a) = None"
        using objGet_cores_eq [of ?c' ?c "getId a"] by simp
      then show ?thesis by (simp add: displayedOrNoItem_def)
    next
      case (Some i)
      from aa(2) e have ea: "list_all (expandedOrNoItem ?c) anc_a"
        using set_mono_prefix [of anc_a anc] by (auto simp: list_all_iff)
      have pa: "?pf a"
      proof (cases "exists_value (filterText p)")
        case False
        then show ?thesis by simp
      next
        case True
        have n_in: "node \<in> set (allNodes ?t)"
          using assms(2) nodesWithAncestors_snd [of "[]" ?t]
          by (metis image_eqI set_map snd_conv)
        have a_in: "a \<in> set (allNodes ?t)"
          using aa(1) nodesWithAncestors_snd [of "[]" ?t]
          by (metis image_eqI set_map snd_conv)
        from passes True have "filterResult p node = Some True" by simp
        then have "nodePasses ?c (filterText p) node"
          using createFilterResults_node [OF assms(1) n_in] by (simp add: filterResult_def)
        from nodePasses_ancestor [OF aa(3) this]
        show ?thesis
          using createFilterResults_node [OF assms(1) a_in] by (simp add: filterResult_def)
      qed
      from at [OF aa(1) Some] ea pa show ?thesis
        by (simp add: displayedOrNoItem_def setDisplayed_def)
    qed
  qed
  have "(list_all (expandedOrNoItem ?c) anc \<and> ?pf node)
      = (?pf node \<and> list_all (expandedOrNoItem ?c') anc \<and> list_all (displayedOrNoItem ?c') anc)"
    using disp by auto
  with at [OF assms(2,3)] show ?thesis
    unfolding upd by (simp only:)
qed

theorem updateVisibilityOfRows_display_witness:
  "distinct (treeIds (columnTree filteredPanel)) \<and>
   ([mkGroup ''A'' False None ''Accounts''
         [ mkColumn ''revenue'' False ''Revenue'',
           mkColumn ''cost'' False ''Cost'',
           mkGroup ''B'' False (Some ''A'') ''Details''
             [ mkColumn ''leaf'' False ''Revenue share'' ] ],
     mkGroup ''B'' False (Some ''A'') ''Details'' [ mkColumn ''leaf'' False ''Revenue share'' ]],
    mkColumn ''leaf'' False ''Revenue share'')
     \<in> set (nodesWithAncestors [] (columnTree filteredPanel)) \<and>
   filterResult filteredPanel (mkColumn ''leaf'' False ''Revenue share'') = Some True \<and>
   \<not> expandedOrNoItem (columnComps (updateVisibilityOfRows filteredPanel))
       (mkGroup ''B'' False (Some ''A'') ''Details'' [ mkColumn ''leaf'' False ''Revenue share'' ]) \<and>
   map_option displayed (objGet (columnComps (updateVisibilityOfRows filteredPanel)) ''leaf'')
     = Some False \<and>
   map_option displayed (objGet (columnComps (updateVisibilityOfRows filteredPanel)) ''revenue'')
     = Some True"
proof -
  let ?leaf = "mkColumn ''leaf'' False ''Revenue share''"
  let ?revenue = "mkColumn ''revenue'' False ''Revenue''"
  let ?B = "mkGroup ''B'' False (Some ''A'') ''Details'' [ ?leaf ]"
  let ?A = "mkGroup ''A'' False None ''Accounts'' [ ?revenue, mkColumn ''cost'' False ''Cost'', ?B ]"
  let ?c' = "columnComps (updateVisibilityOfRows filteredPanel)"
  have d: "distinct (treeIds (columnTree filteredPanel))" by code_simp
  have n1: "([?A, ?B], ?leaf) \<in> set (nodesWithAncestors [] (columnTree filteredPanel))"
    by code_simp
  have n2: "([?A], ?revenue) \<in> set (nodesWithAncestors [] (columnTree filteredPanel))"
    by code_simp
  have "objGet (columnComps filteredPanel) (getId ?leaf) \<noteq> None" by code_simp
  then obtain i1 where i1: "objGet (columnComps filteredPanel) (getId ?leaf) = Some i1" by auto
  have "objGet (columnComps filteredPanel) (getId ?revenue) \<noteq> None" by code_simp
  then obtain i2 where i2: "objGet (columnComps filteredPanel) (getId ?revenue) = Some i2" by auto
  have f: "exists_value (filterText filteredPanel)" by code_simp
  have r1: "filterResult filteredPanel ?leaf = Some True" by code_simp
  have r2: "filterResult filteredPanel ?revenue = Some True" by code_simp
  have e1: "\<not> expandedOrNoItem ?c' ?B" by code_simp
  have e2: "list_all (expandedOrNoItem ?c') [?A]" by code_simp
  have v2: "list_all (displayedOrNoItem ?c') [?A]" by code_simp
  have g: "getId ?leaf = ''leaf''" "getId ?revenue = ''revenue''" by (simp_all add: mkColumn_def)
  have l: "map_option displayed (objGet ?c' ''leaf'') = Some False"
    using updateVisibilityOfRows_display [OF d n1 i1] e1
    by (simp add: g setDisplayed_def)
  have r: "map_option displayed (objGet ?c' ''revenue'') = Some True"
    using updateVisibilityOfRows_display [OF d n2 i2] r2 e2 v2
    by (simp add: g setDisplayed_def)
  from d n1 r1 e1 l r show ?thesis by simp
qed

text \<open>
  C2, as amended. In a tree whose nodes have pairwise distinct ids, after a rebuild
  (\<open>onColumnsChanged\<close>) the registry holds exactly one entry under the id of every node
  that is not suppressed, is not a padding group and has no suppressed group among its
  ancestors, and no entry under the id of any other node of the tree; every key of the
  registry is the id of a node of the tree.
\<close>

theorem rebuild_registry_entries:
  assumes "distinct (treeIds (getPrimaryColumnTree grd))"
      and "(anc, node) \<in> set (nodesWithAncestors [] (getPrimaryColumnTree grd))"
  shows "entriesFor (getId node) (columnComps (onColumnsChanged grd p))
           = (if materialised anc node then 1 else 0) \<and>
         set (objKeys (columnComps (onColumnsChanged grd p)))
           \<subseteq> set (treeIds (getPrimaryColumnTree grd))"
  using assms
  by (simp add: entriesFor_distinct onColumnsChanged_keys renderedIds_member renderedIds_subset)

theorem rebuild_registry_entries_witness:
  "distinct (treeIds (getPrimaryColumnTree exampleGrid)) \<and>
   ([mkGroup ''A'' False None ''Accounts''
         [ mkColumn ''revenue'' False ''Revenue'',
           mkColumn ''cost'' False ''Cost'',
           mkGroup ''B'' False (Some ''A'') ''Details''
             [ mkColumn ''leaf'' False ''Revenue share'' ] ],
     mkGroup ''B'' False (Some ''A'') ''Details'' [ mkColumn ''leaf'' False ''Revenue share'' ]],
    mkColumn ''leaf'' False ''Revenue share'')
     \<in> set (nodesWithAncestors [] (getPrimaryColumnTree exampleGrid)) \<and>
   entriesFor ''leaf'' (columnComps (onColumnsChanged exampleGrid emptyPanel)) = 1 \<and>
   ([mkGroup ''S'' True None ''Secret'' [ mkColumn ''inner'' False ''Inner'' ]],
    mkColumn ''inner'' False ''Inner'')
     \<in> set (nodesWithAncestors [] (getPrimaryColumnTree exampleGrid)) \<and>
   entriesFor ''inner'' (columnComps (onColumnsChanged exampleGrid emptyPanel)) = 0 \<and>
   ([], mkPadding ''pad0'' None [ mkColumn ''country'' False ''Country'' ])
     \<in> set (nodesWithAncestors [] (getPrimaryColumnTree exampleGrid)) \<and>
   entriesFor ''pad0'' (columnComps (onColumnsChanged exampleGrid emptyPanel)) = 0"
proof -
  let ?B = "mkGroup ''B'' False (Some ''A'') ''Details'' [ mkColumn ''leaf'' False ''Revenue share'' ]"
  let ?A = "mkGroup ''A'' False None ''Accounts''
         [ mkColumn ''revenue'' False ''Revenue'', mkColumn ''cost'' False ''Cost'', ?B ]"
  let ?S = "mkGroup ''S'' True None ''Secret'' [ mkColumn ''inner'' False ''Inner'' ]"
  let ?P = "mkPadding ''pad0'' None [ mkColumn ''country'' False ''Country'' ]"
  have d: "distinct (treeIds (getPrimaryColumnTree exampleGrid))" by code_simp
  have n1: "([?A, ?B], mkColumn ''leaf'' False ''Revenue share'')
     \<in> set (nodesWithAncestors [] (getPrimaryColumnTree exampleGrid))" by code_simp
  have n2: "([?S], mkColumn ''inner'' False ''Inner'')
     \<in> set (nodesWithAncestors [] (getPrimaryColumnTree exampleGrid))" by code_simp
  have n3: "([], ?P) \<in> set (nodesWithAncestors [] (getPrimaryColumnTree exampleGrid))" by code_simp
  have m1: "materialised [?A, ?B] (mkColumn ''leaf'' False ''Revenue share'')" by code_simp
  have m2: "\<not> materialised [?S] (mkColumn ''inner'' False ''Inner'')" by code_simp
  have m3: "\<not> materialised [] ?P" by code_simp
  have i: "getId (mkColumn ''leaf'' False ''Revenue share'') = ''leaf''"
     "getId (mkColumn ''inner'' False ''Inner'') = ''inner''" "getId ?P = ''pad0''"
    by (simp_all add: mkColumn_def mkPadding_def)
  from rebuild_registry_entries [OF d n1, of emptyPanel] rebuild_registry_entries [OF d n2, of emptyPanel]
    rebuild_registry_entries [OF d n3, of emptyPanel] d n1 n2 n3 m1 m2 m3 i
  show ?thesis by simp
qed

text \<open>
  C2 as stated fails: in the example tree the column \<open>inner\<close> is neither suppressed nor a
  padding group, but it lies in the suppressed group \<open>S\<close>, and the rebuild makes no entry
  for it.
\<close>

theorem rebuild_registry_entries_counterexample:
  "mkColumn ''inner'' False ''Inner'' \<in> set (allNodes (getPrimaryColumnTree exampleGrid)) \<and>
   \<not> suppressed (mkColumn ''inner'' False ''Inner'') \<and>
   \<not> isPadding (mkColumn ''inner'' False ''Inner'') \<and>
   getId (mkColumn ''inner'' False ''Inner'') = ''inner'' \<and>
   entriesFor ''inner'' (columnComps (onColumnsChanged exampleGrid emptyPanel)) = 0 \<and>
   objGet (columnComps (onColumnsChanged exampleGrid emptyPanel)) ''inner'' = None"
  by code_simp

text \<open>
  C3, as amended. With a filter text (not empty), in a tree whose nodes have pairwise
  distinct ids, \<open>createFilterResults\<close> gives every node of the tree a result, the
  children's before the node's: the node passes if one of its children passes; otherwise,
  if the node has an item, it passes iff the item has no display name or the lower-case
  display name contains the filter text; otherwise (it has no item) a column fails, and a
  group without a parent fails. The result of a group that has a parent and no item is
  not part of the statement.
\<close>

theorem createFilterResults_spec:
  assumes "filterText p = Some f" and "f \<noteq> []"
      and "distinct (treeIds (columnTree p))"
      and "node \<in> set (allNodes (columnTree p))"
  shows "filterResult p node \<noteq> None \<and>
         (anyChildPasses p node \<longrightarrow> filterResult p node = Some True) \<and>
         (\<not> anyChildPasses p node \<longrightarrow>
            (case objGet (columnComps p) (getId node) of
               Some item \<Rightarrow>
                 (case getDisplayName item of
                    Some name \<Rightarrow> filterResult p node = Some (sublist f (toLowerCase name))
                  | None \<Rightarrow> filterResult p node = Some True)
             | None \<Rightarrow>
                 (case node of
                    ColumnChild c \<Rightarrow> filterResult p node = Some False
                  | GroupChild g kids \<Rightarrow>
                      originalParent g = None \<longrightarrow> filterResult p node = Some False)))"
proof -
  note any = anyChildPasses_nodePasses [OF assms(3,4)]
  have res: "filterResult p node = Some (nodePasses (columnComps p) (filterText p) node)"
    using assms(3,4) by (simp add: filterResult_def createFilterResults_node)
  show ?thesis
  proof (cases node)
    case (ColumnChild c)
    then show ?thesis
      using assms(1,2) any res
      by (auto simp: filterPasses_def indexOf_sublist split: option.splits)
  next
    case (GroupChild g kids)
    then show ?thesis
      using assms(1,2) any res
      by (auto simp: filterPasses_def indexOf_sublist split: option.splits)
  qed
qed

theorem createFilterResults_spec_witness:
  "filterText filteredPanel = Some ''rev'' \<and>
   filterResult filteredPanel (mkColumn ''revenue'' False ''Revenue'') = Some True \<and>
   filterResult filteredPanel (mkColumn ''cost'' False ''Cost'') = Some False \<and>
   anyChildPasses filteredPanel
     (mkGroup ''B'' False (Some ''A'') ''Details'' [ mkColumn ''leaf'' False ''Revenue share'' ]) \<and>
   filterResult filteredPanel
     (mkGroup ''B'' False (Some ''A'') ''Details'' [ mkColumn ''leaf'' False ''Revenue share'' ])
     = Some True \<and>
   filterResult filteredPanel (mkColumn ''hidden'' True ''Hidden'') = Some False"
proof -
  let ?B = "mkGroup ''B'' False (Some ''A'') ''Details'' [ mkColumn ''leaf'' False ''Revenue share'' ]"
  have f: "filterText filteredPanel = Some ''rev''" by code_simp
  have ne: "''rev'' \<noteq> []" by simp
  have d: "distinct (treeIds (columnTree filteredPanel))" by code_simp
  have n1: "mkColumn ''revenue'' False ''Revenue'' \<in> set (allNodes (columnTree filteredPanel))" by code_simp
  have n2: "mkColumn ''cost'' False ''Cost'' \<in> set (allNodes (columnTree filteredPanel))" by code_simp
  have n3: "?B \<in> set (allNodes (columnTree filteredPanel))" by code_simp
  have n4: "mkColumn ''hidden'' True ''Hidden'' \<in> set (allNodes (columnTree filteredPanel))" by code_simp
  have a1: "\<not> anyChildPasses filteredPanel (mkColumn ''revenue'' False ''Revenue'')"
    by (simp add: anyChildPasses_def mkColumn_def)
  have a2: "\<not> anyChildPasses filteredPanel (mkColumn ''cost'' False ''Cost'')"
    by (simp add: anyChildPasses_def mkColumn_def)
  have a3: "anyChildPasses filteredPanel ?B" by code_simp
  have a4: "\<not> anyChildPasses filteredPanel (mkColumn ''hidden'' True ''Hidden'')"
    by (simp add: anyChildPasses_def mkColumn_def)
  have c1: "map_option getDisplayName (objGet (columnComps filteredPanel) (getId (mkColumn ''revenue'' False ''Revenue'')))
      = Some (Some ''Revenue'')" by code_simp
  have c2: "map_option getDisplayName (objGet (columnComps filteredPanel) (getId (mkColumn ''cost'' False ''Cost'')))
      = Some (Some ''Cost'')" by code_simp
  have c4: "objGet (columnComps filteredPanel) (getId (mkColumn ''hidden'' True ''Hidden'')) = None" by code_simp
  have s1: "sublist ''rev'' (toLowerCase ''Revenue'')" by code_simp
  have s2: "\<not> sublist ''rev'' (toLowerCase ''Cost'')" by code_simp
  have r1: "filterResult filteredPanel (mkColumn ''revenue'' False ''Revenue'') = Some True"
    using createFilterResults_spec [OF f ne d n1] a1 c1 s1
    by (auto split: option.splits)
  have r2: "filterResult filteredPanel (mkColumn ''cost'' False ''Cost'') = Some False"
    using createFilterResults_spec [OF f ne d n2] a2 c2 s2
    by (auto split: option.splits)
  have r3: "filterResult filteredPanel ?B = Some True"
    using createFilterResults_spec [OF f ne d n3] a3 by simp
  have r4: "filterResult filteredPanel (mkColumn ''hidden'' True ''Hidden'') = Some False"
    using createFilterResults_spec [OF f ne d n4] a4 c4
    by (simp add: mkColumn_def)
  from f r1 r2 a3 r3 r4 show ?thesis by simp
qed

text \<open>
  C3 as stated fails: with the filter text \<open>zzz\<close>, the padding group \<open>pad0\<close> of the
  example tree has no parent, no item and no child that passes, and its result is
  \<open>false\<close>, where C3 has it pass.
\<close>

theorem createFilterResults_spec_counterexample:
  "filterText unmatchedPanel = Some ''zzz'' \<and>
   mkPadding ''pad0'' None [ mkColumn ''country'' False ''Country'' ]
     \<in> set (allNodes (columnTree unmatchedPanel)) \<and>
   isPadding (mkPadding ''pad0'' None [ mkColumn ''country'' False ''Country'' ]) \<and>
   objGet (columnComps unmatchedPanel) ''pad0'' = None \<and>
   \<not> anyChildPasses unmatchedPanel (mkPadding ''pad0'' None [ mkColumn ''country'' False ''Country'' ]) \<and>
   filterResult unmatchedPanel (mkPadding ''pad0'' None [ mkColumn ''country'' False ''Country'' ])
     = Some False"
  by code_simp

text \<open>
  What the source computes for a group that has a parent and no item: the padding group
  \<open>pad1\<close> inside the group \<open>G\<close> passes although its only child fails, and with it \<open>G\<close>
  passes and stays displayed under a filter text that nothing matches. The comment above
  that line of \<open>createFilterResults\<close> asks for \<open>false\<close> for a dummy column group.
\<close>

lemma padding_group_with_parent_passes:
  "filterText nestedPaddingPanel = Some ''zzz'' \<and>
   objGet (columnComps nestedPaddingPanel) ''pad1'' = None \<and>
   filterResult nestedPaddingPanel (mkColumn ''tax'' False ''Tax'') = Some False \<and>
   filterResult nestedPaddingPanel (mkPadding ''pad1'' (Some ''G'') [ mkColumn ''tax'' False ''Tax'' ])
     = Some True \<and>
   map (\<lambda>(key, item). (key, displayed item)) (columnComps nestedPaddingPanel)
     = [(''G'', True), (''tax'', False)]"
  by code_simp

text \<open>
  C4. \<open>setGroupsExpanded\<close>: without \<open>groupIds\<close> the expansion flag of every expandable
  item is set to \<open>expand\<close> and nothing is reported. With \<open>groupIds\<close> the flag is set for
  exactly the expandable items whose id is requested; the requested ids that no expandable
  item answers to are reported in one console warning (none when there is no such id),
  after the loop over the registry has completed. The call always returns a panel (the
  model has no exception to propagate), the registry keeps its keys, and when none of the
  requested ids is matched the registry is unchanged.
\<close>

theorem setGroupsExpanded_spec:
  "columnComps (setGroupsExpanded expand None p) =
     map (\<lambda>(key, item). (key, if isExpandable item then setExpanded expand item else item))
       (columnComps p) \<and>
   trace (setGroupsExpanded expand None p) = trace p \<and>
   columnComps (setGroupsExpanded expand (Some ids) p) =
     map (\<lambda>(key, item).
            (key, if isExpandable item \<and> key \<in> set ids then setExpanded expand item else item))
       (columnComps p) \<and>
   trace (setGroupsExpanded expand (Some ids) p) =
     trace p @ (if unmatchedIds (columnComps p) ids = [] then []
                else [ConsoleWarn (unmatchedIds (columnComps p) ids)]) \<and>
   objKeys (columnComps (setGroupsExpanded expand groupIds p)) = objKeys (columnComps p) \<and>
   (if unmatchedIds (columnComps p) ids = ids
    then columnComps (setGroupsExpanded expand (Some ids) p) = columnComps p
    else True)"
proof -
  let ?comps = "columnComps p"
  have all_comps: "columnComps (setGroupsExpanded expand None p) =
      map (\<lambda>(key, item). (key, if isExpandable item then setExpanded expand item else item)) ?comps"
    by (simp add: setGroupsExpanded_def doSetExpandedAll_def doSetExpandedAllLoop_map)
  have all_trace: "trace (setGroupsExpanded expand None p) = trace p"
    by (simp add: setGroupsExpanded_def doSetExpandedAll_def)
  have some_comps: "columnComps (setGroupsExpanded expand (Some ids) p) =
      map (\<lambda>(key, item).
            (key, if isExpandable item \<and> key \<in> set ids then setExpanded expand item else item)) ?comps"
    by (simp add: setGroupsExpanded_def Let_def setGroupsExpandedLoop_fst)
  have unrec: "filter (\<lambda>groupId. arrayIndexOf (snd (setGroupsExpandedLoop expand ids ?comps [])) groupId < 0) ids
      = unmatchedIds ?comps ids"
    unfolding unmatchedIds_def
    by (rule filter_cong) (auto simp: arrayIndexOf_missing setGroupsExpandedLoop_snd list_ex_iff image_iff)
  have some_trace: "trace (setGroupsExpanded expand (Some ids) p) =
     trace p @ (if unmatchedIds ?comps ids = [] then [] else [ConsoleWarn (unmatchedIds ?comps ids)])"
    by (simp add: setGroupsExpanded_def Let_def unrec)
  have keys: "objKeys (columnComps (setGroupsExpanded expand groupIds p)) = objKeys ?comps"
    by (cases groupIds)
       (simp_all add: setGroupsExpanded_def doSetExpandedAll_def doSetExpandedAllLoop_map
          setGroupsExpandedLoop_fst Let_def objKeys_def comp_def split_def)
  have none: "columnComps (setGroupsExpanded expand (Some ids) p) = ?comps"
    if "unmatchedIds ?comps ids = ids"
  proof -
    from that have "\<forall>groupId \<in> set ids. \<not> list_ex (\<lambda>(key, item). key = groupId \<and> isExpandable item) ?comps"
      unfolding unmatchedIds_def by (simp add: filter_id_conv)
    then have "\<And>key item. (key, item) \<in> set ?comps \<Longrightarrow> \<not> (isExpandable item \<and> key \<in> set ids)"
      by (auto simp: list_ex_iff)
    then show ?thesis
      unfolding some_comps by (intro map_unchanged) auto
  qed
  show ?thesis
    using all_comps all_trace some_comps some_trace keys none by simp
qed

theorem setGroupsExpanded_spec_witness:
  "map (\<lambda>(key, item). (key, isExpanded item))
     (columnComps (setGroupsExpanded False (Some [''unknownId'', ''B'', ''cost'']) examplePanel))
     = [(''A'', True), (''revenue'', False), (''cost'', False), (''B'', False), (''leaf'', False),
        (''country'', False)] \<and>
   trace (setGroupsExpanded False (Some [''unknownId'', ''B'', ''cost'']) examplePanel)
     = trace examplePanel @ [ConsoleWarn [''unknownId'', ''cost'']] \<and>
   columnComps (setGroupsExpanded True (Some [''unknownId'']) examplePanel) = columnComps examplePanel \<and>
   trace (setGroupsExpanded True (Some [''unknownId'']) examplePanel)
     = trace examplePanel @ [ConsoleWarn [''unknownId'']]"
proof -
  have u1: "unmatchedIds (columnComps examplePanel) [''unknownId'', ''B'', ''cost''] = [''unknownId'', ''cost'']"
    by code_simp
  have u2: "unmatchedIds (columnComps examplePanel) [''unknownId''] = [''unknownId'']"
    by code_simp
  have m: "map (\<lambda>(key, item). (key, isExpanded item))
     (map (\<lambda>(key, item).
            (key, if isExpandable item \<and> key \<in> set [''unknownId'', ''B'', ''cost''] then setExpanded False item else item))
       (columnComps examplePanel))
     = [(''A'', True), (''revenue'', False), (''cost'', False), (''B'', False), (''leaf'', False),
        (''country'', False)]"
    by code_simp
  note a = setGroupsExpanded_spec [of False examplePanel "[''unknownId'', ''B'', ''cost'']" "None"]
  note b = setGroupsExpanded_spec [of True examplePanel "[''unknownId'']" "None"]
  have a1: "map (\<lambda>(key, item). (key, isExpanded item))
     (columnComps (setGroupsExpanded False (Some [''unknownId'', ''B'', ''cost'']) examplePanel))
     = [(''A'', True), (''revenue'', False), (''cost'', False), (''B'', False), (''leaf'', False),
        (''country'', False)]"
    using a m by (simp only:)
  have a2: "trace (setGroupsExpanded False (Some [''unknownId'', ''B'', ''cost'']) examplePanel)
     = trace examplePanel @ [ConsoleWarn [''unknownId'', ''cost'']]"
    using a unfolding u1 by simp
  have b1: "columnComps (setGroupsExpanded True (Some [''unknownId'']) examplePanel) = columnComps examplePanel"
  proof -
    have "if unmatchedIds (columnComps examplePanel) [''unknownId''] = [''unknownId'']
          then columnComps (setGroupsExpanded True (Some [''unknownId'']) examplePanel)
                 = columnComps examplePanel
          else True"
      using b by blast
    then show ?thesis unfolding u2 by simp
  qed
  have b2: "trace (setGroupsExpanded True (Some [''unknownId'']) examplePanel)
     = trace examplePanel @ [ConsoleWarn [''unknownId'']]"
    using b unfolding u2 by simp
  show ?thesis using a1 a2 b1 b2 by (simp only:)
qed

text \<open>
  C5. \<open>doSetSelectedAll\<close>: in pivot mode every registered item gets one selection-changed
  notification, in the order of the registry, and no bulk call is made; otherwise the one
  effect is a single bulk set-visible call with all the primary columns, and no item is
  notified. The registry is left as it is.
\<close>

theorem doSetSelectedAll_spec:
  "trace (doSetSelectedAll grd checked p) = trace p @ addedTrace p (doSetSelectedAll grd checked p) \<and>
   (if isPivotMode grd
    then addedTrace p (doSetSelectedAll grd checked p)
           = map (\<lambda>key. SelectAllChanged key checked) (objKeys (columnComps p)) \<and>
         filter isBulkCall (addedTrace p (doSetSelectedAll grd checked p)) = []
    else addedTrace p (doSetSelectedAll grd checked p)
           = [SetColumnsVisible (getPrimaryColumns grd) checked] \<and>
         filter isItemNotification (addedTrace p (doSetSelectedAll grd checked p)) = []) \<and>
   columnComps (doSetSelectedAll grd checked p) = columnComps p"
  by (auto simp: doSetSelectedAll_def addedTrace_def objKeys_def Let_def filter_empty_conv split_def comp_def)

theorem doSetSelectedAll_spec_witness:
  "addedTrace flatPanel (doSetSelectedAll flatGrid True flatPanel)
     = [SelectAllChanged ''revenue'' True, SelectAllChanged ''cost'' True] \<and>
   addedTrace examplePanel (doSetSelectedAll exampleGrid True examplePanel)
     = [SetColumnsVisible [''revenue'', ''cost'', ''leaf'', ''country'', ''inner'', ''hidden''] True]"
proof -
  have k: "objKeys (columnComps flatPanel) = [''revenue'', ''cost'']" by code_simp
  have pv: "isPivotMode flatGrid" "\<not> isPivotMode exampleGrid"
    "getPrimaryColumns exampleGrid = [''revenue'', ''cost'', ''leaf'', ''country'', ''inner'', ''hidden'']"
    by (simp_all add: flatGrid_def exampleGrid_def)
  from doSetSelectedAll_spec [of flatGrid True flatPanel]
       doSetSelectedAll_spec [of exampleGrid True examplePanel] k pv
  show ?thesis by simp
qed

text \<open>
  C6. On a group's expansion change the panel emits exactly one \<open>groupExpanded\<close> event.
  Its state comes from a walk of the whole tree that counts, among the items of the group
  nodes, the expanded and the collapsed ones: it is mixed (\<open>INDETERMINATE\<close>) iff at least
  one counted item is expanded and at least one is collapsed, all-collapsed (\<open>UNCHECKED\<close>)
  iff at least one is collapsed and none is expanded, and all-expanded (\<open>CHECKED\<close>)
  otherwise, that is iff none is collapsed.
\<close>

theorem onGroupExpanded_event:
  "\<exists>state.
     trace (onGroupExpanded p) = trace p @ [GroupExpandedEvent state] \<and>
     (state = INDETERMINATE) =
       (list_ex isExpanded (countedGroupItems (columnComps p) (columnTree p)) \<and>
        list_ex (\<lambda>item. \<not> isExpanded item) (countedGroupItems (columnComps p) (columnTree p))) \<and>
     (state = UNCHECKED) =
       (\<not> list_ex isExpanded (countedGroupItems (columnComps p) (columnTree p)) \<and>
        list_ex (\<lambda>item. \<not> isExpanded item) (countedGroupItems (columnComps p) (columnTree p))) \<and>
     (state = CHECKED) =
       (\<not> list_ex (\<lambda>item. \<not> isExpanded item) (countedGroupItems (columnComps p) (columnTree p))) \<and>
     recursiveFunc (columnComps (updateVisibilityOfRows p)) (columnTree p) (0, 0) =
       (length (filter isExpanded (countedGroupItems (columnComps p) (columnTree p))),
        length (filter (\<lambda>item. \<not> isExpanded item) (countedGroupItems (columnComps p) (columnTree p))))"
proof -
  let ?items = "countedGroupItems (columnComps p) (columnTree p)"
  let ?items' = "countedGroupItems (columnComps (updateVisibilityOfRows p)) (columnTree p)"
  have same: "map isExpanded ?items' = map isExpanded ?items"
    by (rule expanded_count_cores) simp
  have e: "length (filter isExpanded ?items') = length (filter isExpanded ?items)"
    using same by (metis filter_length_by_map)
  have "map (\<lambda>item. \<not> isExpanded item) ?items' = map (\<lambda>item. \<not> isExpanded item) ?items"
    using arg_cong [OF same, of "map Not"] by (simp add: comp_def)
  then have n: "length (filter (\<lambda>item. \<not> isExpanded item) ?items')
      = length (filter (\<lambda>item. \<not> isExpanded item) ?items)"
    by (metis filter_length_by_map)
  let ?e = "length (filter isExpanded ?items)"
  let ?n = "length (filter (\<lambda>item. \<not> isExpanded item) ?items)"
  have walk: "recursiveFunc (columnComps (updateVisibilityOfRows p)) (columnTree p) (0, 0) = (?e, ?n)"
    by (simp add: recursiveFunc_counts e n)
  have tr: "trace (onGroupExpanded p) = trace p @ [GroupExpandedEvent (expandedState ?e ?n)]"
    by (simp add: onGroupExpanded_def fireExpandedEvent_def Let_def walk)
  have pe: "(0 < ?e) = list_ex isExpanded ?items"
    by (simp add: list_ex_iff filter_empty_conv)
  have pn: "(0 < ?n) = list_ex (\<lambda>item. \<not> isExpanded item) ?items"
    by (simp add: list_ex_iff filter_empty_conv)
  have s1: "(expandedState ?e ?n = INDETERMINATE) = (0 < ?e \<and> 0 < ?n)"
    by (simp only: expandedState_cases)
  have s2: "(expandedState ?e ?n = UNCHECKED) = (\<not> 0 < ?e \<and> 0 < ?n)"
    by (simp only: expandedState_cases) auto
  have s3: "(expandedState ?e ?n = CHECKED) = (\<not> 0 < ?n)"
    by (simp only: expandedState_cases) auto
  show ?thesis
    using tr walk s1 s2 s3 unfolding pe pn by blast
qed

theorem onGroupExpanded_event_witness:
  "trace (onGroupExpanded collapsedPanel) = trace collapsedPanel @ [GroupExpandedEvent INDETERMINATE] \<and>
   map isExpanded (countedGroupItems (columnComps collapsedPanel) (columnTree collapsedPanel)) = [True, False]"
proof -
  have items: "map isExpanded (countedGroupItems (columnComps collapsedPanel) (columnTree collapsedPanel)) = [True, False]"
    by code_simp
  have a: "list_ex isExpanded (countedGroupItems (columnComps collapsedPanel) (columnTree collapsedPanel))"
    by code_simp
  have b: "list_ex (\<lambda>item. \<not> isExpanded item)
             (countedGroupItems (columnComps collapsedPanel) (columnTree collapsedPanel))"
    by code_simp
  from onGroupExpanded_event [of collapsedPanel] a b items show ?thesis
    by auto
qed

text \<open>
  C7. A rebuild (\<open>onColumnsChanged\<close>) leaves the filter text and the "expand groups by
  default" flag as they are, and every group item it builds has that flag as its
  expansion flag, whatever the expansion of the items before. \<open>init\<close> sets the flag to
  the inverse of \<open>contractColumnSelection\<close>, keeps the filter text, and rebuilds with that
  flag when the column controller is ready.
\<close>

theorem rebuild_keeps_configuration:
  "filterText (onColumnsChanged grd p) = filterText p \<and>
   expandGroupsByDefault (onColumnsChanged grd p) = expandGroupsByDefault p \<and>
   groupItemsHaveExpansion (expandGroupsByDefault p) (columnComps (onColumnsChanged grd p)) \<and>
   filterText (init grd prms allowDrag p) = filterText p \<and>
   expandGroupsByDefault (init grd prms allowDrag p) = (\<not> contractColumnSelection prms) \<and>
   (if isReady grd
    then groupItemsHaveExpansion (\<not> contractColumnSelection prms)
           (columnComps (init grd prms allowDrag p))
    else columnComps (init grd prms allowDrag p) = columnComps p)"
proof -
  have rebuild: "filterText (onColumnsChanged grd q) = filterText q \<and>
      expandGroupsByDefault (onColumnsChanged grd q) = expandGroupsByDefault q \<and>
      groupItemsHaveExpansion (expandGroupsByDefault q) (columnComps (onColumnsChanged grd q))" for q
  proof -
    let ?p2 = "(destroyColumnComps q)\<lparr> columnTree := getPrimaryColumnTree grd \<rparr>"
    have start: "groupItemsHaveExpansion (expandGroupsByDefault ?p2) (columnComps ?p2)"
      by (simp add: destroyColumnComps_def groupItemsHaveExpansion_def)
    have e: "expandGroupsByDefault ?p2 = expandGroupsByDefault q" "filterText ?p2 = filterText q"
      by (simp_all add: destroyColumnComps_def)
    from recursivelyAddComps_expansion(1) [OF start]
    have "groupItemsHaveExpansion (expandGroupsByDefault q)
        (columnComps (recursivelyAddComps (getPrimaryColumnTree grd) 0 (isPrimaryColumnGroupsPresent grd) ?p2))"
      by (simp add: e)
    then have "groupItemsHaveExpansion (expandGroupsByDefault q)
        (columnComps (updateVisibilityOfRows
           (recursivelyAddComps (getPrimaryColumnTree grd) 0 (isPrimaryColumnGroupsPresent grd) ?p2)))"
      using groupItemsHaveExpansion_cores [OF cores_updateVisibilityOfRows] by simp
    then show ?thesis
      by (simp add: onColumnsChanged_def Let_def recursivelyAddComps_frame e)
  qed
  show ?thesis
    using rebuild [of p]
      rebuild [of "p\<lparr> params := prms, allowDragging := allowDrag,
                      trace := trace p @ [ListenerAdded ''EVENT_COLUMN_MOVED'', ListenerAdded ''EVENT_COLUMN_EVERYTHING_CHANGED''],
                      expandGroupsByDefault := \<not> contractColumnSelection prms \<rparr>"]
      rebuild [of "p\<lparr> params := prms, allowDragging := allowDrag,
                      trace := trace p @ [ListenerAdded ''EVENT_COLUMN_EVERYTHING_CHANGED''],
                      expandGroupsByDefault := \<not> contractColumnSelection prms \<rparr>"]
    by (simp add: init_def Let_def groupItemsHaveExpansion_def)
qed

theorem rebuild_keeps_configuration_witness:
  "filterText filteredPanel = Some ''rev'' \<and>
   filterText (onColumnsChanged exampleGrid filteredPanel) = Some ''rev'' \<and>
   expandGroupsByDefault (onColumnsChanged exampleGrid filteredPanel) = True \<and>
   map (\<lambda>(key, item). (key, isExpanded item)) (filter (\<lambda>(key, item). kind item = ToolPanelColumnGroupComp) (columnComps filteredPanel))
     = [(''A'', True), (''B'', False)] \<and>
   map (\<lambda>(key, item). (key, isExpanded item)) (filter (\<lambda>(key, item). kind item = ToolPanelColumnGroupComp) (columnComps (onColumnsChanged exampleGrid filteredPanel)))
     = [(''A'', True), (''B'', True)] \<and>
   groupItemsHaveExpansion True (columnComps (onColumnsChanged exampleGrid filteredPanel)) \<and>
   expandGroupsByDefault (init exampleGrid contractParams False filteredPanel) = False"
proof -
  have f: "filterText filteredPanel = Some ''rev''" by code_simp
  have d: "expandGroupsByDefault filteredPanel = True" by code_simp
  have c: "contractColumnSelection contractParams" by (simp add: contractParams_def)
  have b: "map (\<lambda>(key, item). (key, isExpanded item)) (filter (\<lambda>(key, item). kind item = ToolPanelColumnGroupComp) (columnComps filteredPanel))
     = [(''A'', True), (''B'', False)]" by code_simp
  have a: "map (\<lambda>(key, item). (key, isExpanded item)) (filter (\<lambda>(key, item). kind item = ToolPanelColumnGroupComp) (columnComps (onColumnsChanged exampleGrid filteredPanel)))
     = [(''A'', True), (''B'', True)]" by code_simp
  from rebuild_keeps_configuration [of exampleGrid filteredPanel contractParams False] f d c a b
  show ?thesis by simp
qed

text \<open>
  C8. For every panel and every filter text, \<open>setFilterText\<close> called twice with the same
  text leaves the panel that one call leaves; in particular the display flags of all the
  registered items are the same.
\<close>

theorem setFilterText_idempotent:
  "setFilterText ftext (setFilterText ftext p) = setFilterText ftext p \<and>
   displayFlags (setFilterText ftext (setFilterText ftext p)) = displayFlags (setFilterText ftext p)"
proof -
  define nf where "nf = (if exists_value ftext then map_option toLowerCase ftext else None)"
  have s: "setFilterText ftext r = updateVisibilityOfRows (r\<lparr> filterText := nf \<rparr>)" for r
    by (simp add: setFilterText_def nf_def)
  have "filterText (updateVisibilityOfRows (p\<lparr> filterText := nf \<rparr>)) = nf" by simp
  then have "(updateVisibilityOfRows (p\<lparr> filterText := nf \<rparr>))\<lparr> filterText := nf \<rparr>
        = updateVisibilityOfRows (p\<lparr> filterText := nf \<rparr>)"
    by (rule filterText_update_same)
  then have "setFilterText ftext (setFilterText ftext p) = setFilterText ftext p"
    by (simp only: s updateVisibilityOfRows_idem)
  then show ?thesis by simp
qed

theorem setFilterText_idempotent_witness:
  "displayFlags (setFilterText (Some ''Rev'') collapsedPanel)
     = [(''A'', True), (''revenue'', True), (''cost'', False), (''B'', True), (''leaf'', False),
        (''country'', False)] \<and>
   displayFlags (setFilterText (Some ''Rev'') (setFilterText (Some ''Rev'') collapsedPanel))
     = [(''A'', True), (''revenue'', True), (''cost'', False), (''B'', True), (''leaf'', False),
        (''country'', False)]"
proof -
  have once: "displayFlags (setFilterText (Some ''Rev'') collapsedPanel)
     = [(''A'', True), (''revenue'', True), (''cost'', False), (''B'', True), (''leaf'', False),
        (''country'', False)]"
    by code_simp
  from setFilterText_idempotent [of "Some ''Rev''" collapsedPanel] once show ?thesis
    by (simp only:)
qed

text \<open>
  C9. In a tree whose nodes have pairwise distinct ids, let a group's definition set
  \<open>suppressToolPanel\<close>. After a rebuild the registry has no entry for the group, and none
  for any node that has the group among its ancestors, suppressed itself or not.
\<close>

theorem suppressed_group_subtree_skipped:
  assumes "distinct (treeIds (getPrimaryColumnTree grd))"
      and "(anc, node) \<in> set (nodesWithAncestors [] (getPrimaryColumnTree grd))"
      and "GroupChild g kids \<in> set (anc @ [node])"
      and "defSuppressed (colGroupDef g)"
  shows "objGet (columnComps (onColumnsChanged grd p)) (getId node) = None"
proof -
  from assms(4) have "suppressed (GroupChild g kids)" by simp
  with assms(3) have "suppressed node \<or> list_ex suppressed anc"
    by (auto simp: list_ex_iff simp del: suppressed.simps)
  then have "\<not> materialised anc node"
    by (auto simp: materialised_def)
  with assms(1,2) show ?thesis
    by (simp add: objGet_None_keys onColumnsChanged_keys renderedIds_member)
qed

theorem suppressed_group_subtree_skipped_witness:
  "distinct (treeIds (getPrimaryColumnTree exampleGrid)) \<and>
   ([mkGroup ''S'' True None ''Secret'' [ mkColumn ''inner'' False ''Inner'' ]],
    mkColumn ''inner'' False ''Inner'')
     \<in> set (nodesWithAncestors [] (getPrimaryColumnTree exampleGrid)) \<and>
   \<not> suppressed (mkColumn ''inner'' False ''Inner'') \<and>
   objGet (columnComps (onColumnsChanged exampleGrid emptyPanel)) ''inner'' = None \<and>
   objGet (columnComps (onColumnsChanged exampleGrid emptyPanel)) ''S'' = None"
proof -
  let ?S = "mkGroup ''S'' True None ''Secret'' [ mkColumn ''inner'' False ''Inner'' ]"
  let ?g = "\<lparr> groupId = ''S'', colGroupDef = Some \<lparr> suppressToolPanel = True \<rparr>,
                  padding = False, originalParent = None, groupDisplayName = Some ''Secret'' \<rparr>"
  have d: "distinct (treeIds (getPrimaryColumnTree exampleGrid))" by code_simp
  have n1: "([?S], mkColumn ''inner'' False ''Inner'')
     \<in> set (nodesWithAncestors [] (getPrimaryColumnTree exampleGrid))" by code_simp
  have n2: "([], ?S) \<in> set (nodesWithAncestors [] (getPrimaryColumnTree exampleGrid))" by code_simp
  have g1: "GroupChild ?g [ mkColumn ''inner'' False ''Inner'' ] \<in> set ([?S] @ [mkColumn ''inner'' False ''Inner''])"
    by (simp add: mkGroup_def)
  have g2: "GroupChild ?g [ mkColumn ''inner'' False ''Inner'' ] \<in> set ([] @ [?S])"
    by (simp add: mkGroup_def)
  have s: "defSuppressed (colGroupDef ?g)" by (simp add: defSuppressed_def)
  have u: "\<not> suppressed (mkColumn ''inner'' False ''Inner'')" by code_simp
  have i: "getId (mkColumn ''inner'' False ''Inner'') = ''inner''" "getId ?S = ''S''"
    by (simp_all add: mkColumn_def mkGroup_def)
  from suppressed_group_subtree_skipped [OF d n1 g1 s, of emptyPanel]
       suppressed_group_subtree_skipped [OF d n2 g2 s, of emptyPanel] d n1 u i
  show ?thesis by simp
qed

text \<open>
  C10. If the walk of \<open>fireExpandedEvent\<close> counts no expanded and no collapsed group item
  (there is then no group item at all), the event it emits carries the all-expanded state
  \<open>CHECKED\<close>.
\<close>

theorem fireExpandedEvent_no_groups:
  assumes "recursiveFunc (columnComps p) (columnTree p) (0, 0) = (0, 0)"
  shows "trace (fireExpandedEvent p) = trace p @ [GroupExpandedEvent CHECKED] \<and>
         countedGroupItems (columnComps p) (columnTree p) = []"
proof -
  let ?items = "countedGroupItems (columnComps p) (columnTree p)"
  from assms have "length (filter isExpanded ?items) = 0"
    and "length (filter (\<lambda>item. \<not> isExpanded item) ?items) = 0"
    by (simp_all add: recursiveFunc_counts)
  then have "?items = []"
    by (metis (mono_tags, lifting) filter_empty_conv length_0_conv neq_Nil_conv list.set_intros(1))
  moreover have "trace (fireExpandedEvent p) = trace p @ [GroupExpandedEvent CHECKED]"
    using assms by (simp add: fireExpandedEvent_def expandedState_def)
  ultimately show ?thesis by simp
qed

theorem fireExpandedEvent_no_groups_witness:
  "recursiveFunc (columnComps flatPanel) (columnTree flatPanel) (0, 0) = (0, 0) \<and>
   trace (fireExpandedEvent flatPanel) = trace flatPanel @ [GroupExpandedEvent CHECKED] \<and>
   columnTree flatPanel = [mkColumn ''revenue'' False ''Revenue'', mkColumn ''cost'' False ''Cost'']"
proof -
  have h: "recursiveFunc (columnComps flatPanel) (columnTree flatPanel) (0, 0) = (0, 0)"
    by code_simp
  have t: "columnTree flatPanel = [mkColumn ''revenue'' False ''Revenue'', mkColumn ''cost'' False ''Cost'']"
    by code_simp
  from fireExpandedEvent_no_groups [OF h] h t show ?thesis by simp
qed

end
